theory Spec2Isabelle
  imports Complex_Main
begin

section \<open>Data model\<close>

text \<open>
  The repository selects, per vocabulary word, a hidden Markov model among candidate
  state counts (\<^verbatim>\<open>my_model_selectors.py\<close>) and classifies test items with the selected
  models (\<^verbatim>\<open>my_recognizer.py\<close>).

  Python floats are modelled by \<open>pyfloat\<close>: the two infinities that the code writes
  (\<^verbatim>\<open>float("inf")\<close>, \<^verbatim>\<open>float("-inf")\<close>), the not-a-number that float arithmetic can
  produce, and the finite values, idealised as real numbers (no rounding, no overflow).
  A comparison with not-a-number is false, as in Python.
\<close>

datatype pyfloat = NaN | NegInf | Fin real | PosInf

fun fl_less :: "pyfloat \<Rightarrow> pyfloat \<Rightarrow> bool" where
  "fl_less NaN _ = False"
| "fl_less _ NaN = False"
| "fl_less NegInf NegInf = False"
| "fl_less NegInf _ = True"
| "fl_less (Fin a) (Fin b) = (a < b)"
| "fl_less (Fin a) PosInf = True"
| "fl_less (Fin a) NegInf = False"
| "fl_less PosInf _ = False"

fun fl_add :: "pyfloat \<Rightarrow> pyfloat \<Rightarrow> pyfloat" where
  "fl_add NaN _ = NaN"
| "fl_add _ NaN = NaN"
| "fl_add (Fin a) (Fin b) = Fin (a + b)"
| "fl_add (Fin a) y = y"
| "fl_add x (Fin b) = x"
| "fl_add NegInf NegInf = NegInf"
| "fl_add PosInf PosInf = PosInf"
| "fl_add NegInf PosInf = NaN"
| "fl_add PosInf NegInf = NaN"

text \<open>The product of a finite number and a float (\<^verbatim>\<open>p * logN\<close> with an integer \<open>p\<close>).\<close>

fun fl_scale :: "real \<Rightarrow> pyfloat \<Rightarrow> pyfloat" where
  "fl_scale c NaN = NaN"
| "fl_scale c (Fin a) = Fin (c * a)"
| "fl_scale c NegInf = (if c = 0 then NaN else if 0 < c then NegInf else PosInf)"
| "fl_scale c PosInf = (if c = 0 then NaN else if 0 < c then PosInf else NegInf)"

text \<open>\<^verbatim>\<open>np.log(n)\<close> of a length: minus infinity at 0 (numpy warns, it does not raise).\<close>

definition np_log :: "nat \<Rightarrow> pyfloat" where
  "np_log n = (if n = 0 then NegInf else Fin (ln (real n)))"

text \<open>\<^verbatim>\<open>np.mean(scores)\<close> of a list of finite numbers: not-a-number on the empty list.\<close>

definition np_mean :: "real list \<Rightarrow> pyfloat" where
  "np_mean scores = (if scores = [] then NaN else Fin (sum_list scores / real (length scores)))"

text \<open>The exceptions that the modelled code can meet.\<close>

datatype exn =
  FitFailure | ScoreFailure | KeyError | IndexError | ZeroDivisionError | ValueError
  | TypeError | NotImplementedError

text \<open>
  A sequence is a list of feature vectors. The flattened representation of a collection
  of sequences is a two-dimensional array \<open>X\<close> (its rows and its number of columns,
  \<^verbatim>\<open>X.shape[1]\<close>) with the list of the sequences' lengths.
\<close>

type_synonym frame = "real list"

type_synonym seq = "frame list"

datatype ndarray = NdArray (ncols: nat) (rows: "frame list")

type_synonym xlengths = "ndarray \<times> nat list"

type_synonym word = string

text \<open>
  The fitting and scoring engine (\<^verbatim>\<open>GaussianHMM(...).fit\<close> and \<^verbatim>\<open>model.score\<close> of
  hmmlearn) is outside the repository. It is a parameter: \<open>fit k seed (X, lengths)\<close>
  gives a fitted model of type \<open>'m\<close> or raises, and \<open>score m (X, lengths)\<close> gives a
  real-valued log-likelihood or raises. Both are functions of their arguments.
\<close>

record 'm engine =
  fit :: "int \<Rightarrow> int \<Rightarrow> xlengths \<Rightarrow> exn + 'm"
  score :: "'m \<Rightarrow> xlengths \<Rightarrow> exn + real"

text \<open>
  The fields of a \<^verbatim>\<open>ModelSelector\<close> instance. The two dictionaries are association
  lists in the dictionaries' iteration order.
\<close>

record selector =
  words :: "(word \<times> seq list) list"
  hwords :: "(word \<times> xlengths) list"
  sequences :: "seq list"
  X :: ndarray
  lengths :: "nat list"
  this_word :: word
  n_constant :: int
  min_n_components :: int
  max_n_components :: int
  random_state :: int
  verbose :: bool

text \<open>\<^verbatim>\<open>ModelSelector.__init__\<close>: a missing key raises \<^verbatim>\<open>KeyError\<close>.\<close>

definition init_selector ::
  "(word \<times> seq list) list \<Rightarrow> (word \<times> xlengths) list \<Rightarrow> word \<Rightarrow> int \<Rightarrow> int \<Rightarrow> int \<Rightarrow> int
   \<Rightarrow> bool \<Rightarrow> exn + selector" where
  "init_selector all_word_sequences all_word_Xlengths w n_const min_n max_n seed verb =
     (case map_of all_word_sequences w of
        None \<Rightarrow> Inl KeyError
      | Some sqs \<Rightarrow>
          (case map_of all_word_Xlengths w of
             None \<Rightarrow> Inl KeyError
           | Some (x, ls) \<Rightarrow>
               Inr \<lparr>words = all_word_sequences, hwords = all_word_Xlengths, sequences = sqs,
                    X = x, lengths = ls, this_word = w, n_constant = n_const,
                    min_n_components = min_n, max_n_components = max_n,
                    random_state = seed, verbose = verb\<rparr>))"

text \<open>\<^verbatim>\<open>range(a, b)\<close> on integers: \<open>a, a + 1, ..., b - 1\<close>, empty when \<open>b \<le> a\<close>.\<close>

definition py_range :: "int \<Rightarrow> int \<Rightarrow> int list" where
  "py_range a b = [a..b - 1]"

section \<open>Model selectors\<close>

text \<open>
  A call either raises (\<open>Inl\<close> with the exception) or returns (\<open>Inr\<close> with the result).
  A \<^verbatim>\<open>for\<close> loop runs its body on the items in order; an exception that the body
  raises leaves the loop, and with it the function.
\<close>

fun for_loop :: "('s \<Rightarrow> 'a \<Rightarrow> exn + 's) \<Rightarrow> 's \<Rightarrow> 'a list \<Rightarrow> exn + 's" where
  "for_loop body st [] = Inr st"
| "for_loop body st (item # rest) =
     (case body st item of Inl e \<Rightarrow> Inl e | Inr st' \<Rightarrow> for_loop body st' rest)"

text \<open>
  \<^verbatim>\<open>ModelSelector.base_model\<close>: the fit runs inside \<^verbatim>\<open>try\<close>, and the handler of the
  bare \<^verbatim>\<open>except\<close> returns \<^verbatim>\<open>None\<close>. The fit reads the instance's current \<open>X\<close> and
  \<open>lengths\<close>. The diagnostic prints under \<open>verbose\<close> write to the standard output only
  and are left out.
\<close>

definition base_model :: "'m engine \<Rightarrow> selector \<Rightarrow> int \<Rightarrow> exn + 'm option" where
  "base_model eng self num_states =
     (case fit eng num_states (random_state self) (X self, lengths self) of
        Inl e \<Rightarrow> Inr None
      | Inr hmm_model \<Rightarrow> Inr (Some hmm_model))"

subsection \<open>SelectorBIC\<close>

definition bic_score :: "selector \<Rightarrow> int \<Rightarrow> real \<Rightarrow> pyfloat" where
  "bic_score self num_states logL =
     (let p = num_states * (int (ncols (X self)) * 2 + 1);
          logN = np_log (length (rows (X self)))
      in fl_add (Fin (- 2 * logL)) (fl_scale (real_of_int p) logN))"

text \<open>
  The body of the \<^verbatim>\<open>try\<close> block for one candidate: \<open>Inl\<close> is an exception that leaves
  the block, \<open>Inr\<close> the values of \<open>best_score\<close> and \<open>best_model\<close> at its end.
\<close>

definition bic_try ::
  "'m engine \<Rightarrow> selector \<Rightarrow> pyfloat \<times> 'm option \<Rightarrow> int \<Rightarrow> exn + pyfloat \<times> 'm option" where
  "bic_try eng self best num_states =
     (case base_model eng self num_states of
        Inl e \<Rightarrow> Inl e
      | Inr None \<Rightarrow> Inr best
      | Inr (Some hmm_model) \<Rightarrow>
          (case score eng hmm_model (X self, lengths self) of
             Inl e \<Rightarrow> Inl e
           | Inr logL \<Rightarrow>
               (let BIC_score = bic_score self num_states logL
                in if fl_less BIC_score (fst best) then Inr (BIC_score, Some hmm_model)
                   else Inr best)))"

text \<open>
  The body of the loop, the \<^verbatim>\<open>try\<close> statement: the handler \<^verbatim>\<open>except: pass\<close> ends the
  iteration with the two variables as they were.
\<close>

definition bic_body ::
  "'m engine \<Rightarrow> selector \<Rightarrow> pyfloat \<times> 'm option \<Rightarrow> int \<Rightarrow> exn + pyfloat \<times> 'm option" where
  "bic_body eng self best num_states =
     (case bic_try eng self best num_states of Inl e \<Rightarrow> Inr best | Inr best' \<Rightarrow> Inr best')"

definition select_bic :: "'m engine \<Rightarrow> selector \<Rightarrow> exn + 'm option" where
  "select_bic eng self =
     (case for_loop (bic_body eng self) (PosInf, None)
             (py_range (min_n_components self) (max_n_components self)) of
        Inl e \<Rightarrow> Inl e
      | Inr (best_score, best_model) \<Rightarrow> Inr best_model)"

subsection \<open>SelectorDIC\<close>

text \<open>
  The inner loop over the other words: each word's data is looked up in \<open>hwords\<close>
  (\<^verbatim>\<open>KeyError\<close> when absent) and scored with the candidate model.
\<close>

fun dic_sum :: "'m engine \<Rightarrow> selector \<Rightarrow> 'm \<Rightarrow> word list \<Rightarrow> real \<Rightarrow> exn + real" where
  "dic_sum eng self hmm_model [] scores = Inr scores"
| "dic_sum eng self hmm_model (w # ws) scores =
     (case map_of (hwords self) w of
        None \<Rightarrow> Inl KeyError
      | Some xl \<Rightarrow>
          (case score eng hmm_model xl of
             Inl e \<Rightarrow> Inl e
           | Inr s \<Rightarrow> dic_sum eng self hmm_model ws (scores + s)))"

text \<open>
  The division \<^verbatim>\<open>scores / (M - 1)\<close>. For an instance built by the constructor
  \<open>this_word\<close> is a key of \<open>words\<close>, so \<open>M = 1\<close> leaves no other word, \<open>scores\<close> is still
  the Python float \<^verbatim>\<open>0.0\<close> and the division raises \<^verbatim>\<open>ZeroDivisionError\<close>.

  In the source the guarded assignment is \<^verbatim>\<open>best_model = dic_score\<close> followed by
  \<^verbatim>\<open>best_model = hmm_model\<close>: \<open>best_score\<close> is never assigned, so it keeps its
  initial value and only \<open>best_model\<close> changes.
\<close>

definition dic_try ::
  "'m engine \<Rightarrow> selector \<Rightarrow> int \<Rightarrow> pyfloat \<times> 'm option \<Rightarrow> int \<Rightarrow> exn + pyfloat \<times> 'm option"
  where
  "dic_try eng self M best num_states =
     (case base_model eng self num_states of
        Inl e \<Rightarrow> Inl e
      | Inr None \<Rightarrow> Inr best
      | Inr (Some hmm_model) \<Rightarrow>
          (case score eng hmm_model (X self, lengths self) of
             Inl e \<Rightarrow> Inl e
           | Inr sc \<Rightarrow>
               (case dic_sum eng self hmm_model
                       (filter (\<lambda>w. w \<noteq> this_word self) (map fst (words self))) 0 of
                  Inl e \<Rightarrow> Inl e
                | Inr scores \<Rightarrow>
                    if M - 1 = 0 then Inl ZeroDivisionError
                    else (let dic_score = sc - scores / real_of_int (M - 1)
                          in if fl_less (fst best) (Fin dic_score)
                             then Inr (fst best, Some hmm_model)
                             else Inr best))))"

definition dic_body ::
  "'m engine \<Rightarrow> selector \<Rightarrow> int \<Rightarrow> pyfloat \<times> 'm option \<Rightarrow> int \<Rightarrow> exn + pyfloat \<times> 'm option"
  where
  "dic_body eng self M best num_states =
     (case dic_try eng self M best num_states of Inl e \<Rightarrow> Inr best | Inr best' \<Rightarrow> Inr best')"

definition select_dic :: "'m engine \<Rightarrow> selector \<Rightarrow> exn + 'm option" where
  "select_dic eng self =
     (let M = int (length (words self))
      in case for_loop (dic_body eng self M) (NegInf, None)
                (py_range (min_n_components self) (max_n_components self)) of
           Inl e \<Rightarrow> Inl e
         | Inr (best_score, best_model) \<Rightarrow> Inr best_model)"

subsection \<open>SelectorConstant\<close>

definition select_constant :: "'m engine \<Rightarrow> selector \<Rightarrow> exn + 'm option" where
  "select_constant eng self = (let best_num_components = n_constant self
                               in base_model eng self best_num_components)"

subsection \<open>SelectorCV\<close>

text \<open>
  \<^verbatim>\<open>KFold(n_splits, shuffle=False).split(samples)\<close> of scikit-learn, a library outside
  the repository: the indices \<open>0, ..., n - 1\<close> are cut into \<open>n_splits\<close> consecutive test
  folds, the first \<open>n mod n_splits\<close> of them one longer than the others; each fold is
  yielded as the pair of the remaining indices and the test indices. It raises
  \<^verbatim>\<open>ValueError\<close> when there are fewer samples than folds.
\<close>

definition kfold_sizes :: "nat \<Rightarrow> nat \<Rightarrow> nat list" where
  "kfold_sizes n_splits n =
     map (\<lambda>i. n div n_splits + (if i < n mod n_splits then 1 else 0)) [0..<n_splits]"

fun kfold_from :: "nat \<Rightarrow> nat \<Rightarrow> nat list \<Rightarrow> (nat list \<times> nat list) list" where
  "kfold_from n current [] = []"
| "kfold_from n current (fold_size # rest) =
     (filter (\<lambda>i. \<not> (current \<le> i \<and> i < current + fold_size)) [0..<n],
      [current..<current + fold_size])
     # kfold_from n (current + fold_size) rest"

definition kfold_split :: "nat \<Rightarrow> nat \<Rightarrow> exn + (nat list \<times> nat list) list" where
  "kfold_split n_splits n =
     (if n < n_splits then Inl ValueError
      else Inr (kfold_from n 0 (kfold_sizes n_splits n)))"

text \<open>
  Modelled from the spec: \<^verbatim>\<open>combine_sequences\<close> of \<^verbatim>\<open>asl_utils\<close> is not among the
  sources. By the spec's data model the flattened representation of a collection of
  sequences is the concatenation of their observation vectors with the list of their
  lengths; \<open>combine_sequences\<close> builds it for the sequences at the given indices, in
  the order of the indices. An index out of range raises \<^verbatim>\<open>IndexError\<close>.
\<close>

definition feature_dim :: "seq list \<Rightarrow> nat" where
  "feature_dim sqs = (case concat sqs of [] \<Rightarrow> 0 | v # _ \<Rightarrow> length v)"

definition combine_sequences :: "nat list \<Rightarrow> seq list \<Rightarrow> exn + xlengths" where
  "combine_sequences split_index_list sqs =
     (if \<forall>idx \<in> set split_index_list. idx < length sqs
      then Inr (NdArray (feature_dim sqs) (concat (map (\<lambda>idx. sqs ! idx) split_index_list)),
                map (\<lambda>idx. length (sqs ! idx)) split_index_list)
      else Inl IndexError)"

text \<open>
  The state of the search: the instance (the split path assigns \<^verbatim>\<open>self.X\<close> and
  \<^verbatim>\<open>self.lengths\<close>) and the variables \<open>best_score\<close> and \<open>best_model\<close>.
\<close>

type_synonym 'm cv_state = "selector \<times> pyfloat \<times> 'm option"

text \<open>
  The loop over the folds for one candidate. The result is the state when the loop is
  left, with the exception that left it, if any: what was assigned before an exception
  stays assigned. A failed fit (\<open>base_model\<close> returns \<^verbatim>\<open>None\<close>) goes on to the next
  fold; a failed score is an exception and leaves the loop.
\<close>

fun cv_folds ::
  "'m engine \<Rightarrow> int \<Rightarrow> (nat list \<times> nat list) list \<Rightarrow> real list \<Rightarrow> 'm cv_state
   \<Rightarrow> exn option \<times> 'm cv_state" where
  "cv_folds eng num_states [] scores st = (None, st)"
| "cv_folds eng num_states ((train, test) # rest) scores (self, best_score, best_model) =
     (case combine_sequences train (sequences self) of
        Inl e \<Rightarrow> (Some e, (self, best_score, best_model))
      | Inr (x_train, train_lengths) \<Rightarrow>
          (let self' = self\<lparr>X := x_train, lengths := train_lengths\<rparr>
           in case combine_sequences test (sequences self') of
                Inl e \<Rightarrow> (Some e, (self', best_score, best_model))
              | Inr test_data \<Rightarrow>
                  (case base_model eng self' num_states of
                     Inl e \<Rightarrow> (Some e, (self', best_score, best_model))
                   | Inr None \<Rightarrow>
                       cv_folds eng num_states rest scores (self', best_score, best_model)
                   | Inr (Some hmm_model) \<Rightarrow>
                       (case score eng hmm_model test_data of
                          Inl e \<Rightarrow> (Some e, (self', best_score, best_model))
                        | Inr sc \<Rightarrow>
                            (let scores' = scores @ [sc];
                                 mean_score = np_mean scores'
                             in if fl_less best_score mean_score
                                then cv_folds eng num_states rest scores'
                                       (self', mean_score, Some hmm_model)
                                else cv_folds eng num_states rest scores'
                                       (self', best_score, best_model))))))"

text \<open>The two branches of the \<^verbatim>\<open>if len(self.sequences) > 2\<close> inside the \<^verbatim>\<open>try\<close> block.\<close>

definition cv_split_branch :: "'m engine \<Rightarrow> int \<Rightarrow> 'm cv_state \<Rightarrow> exn option \<times> 'm cv_state" where
  "cv_split_branch eng num_states st =
     (case kfold_split 3 (length (sequences (fst st))) of
        Inl e \<Rightarrow> (Some e, st)
      | Inr folds \<Rightarrow> cv_folds eng num_states folds [] st)"

definition cv_nosplit_branch :: "'m engine \<Rightarrow> int \<Rightarrow> 'm cv_state \<Rightarrow> exn option \<times> 'm cv_state"
  where
  "cv_nosplit_branch eng num_states st =
     (case st of (self, best_score, best_model) \<Rightarrow>
        (case base_model eng self num_states of
           Inl e \<Rightarrow> (Some e, st)
         | Inr None \<Rightarrow> (None, st)
         | Inr (Some hmm_model) \<Rightarrow>
             (case score eng hmm_model (X self, lengths self) of
                Inl e \<Rightarrow> (Some e, st)
              | Inr sc \<Rightarrow>
                  if fl_less best_score (Fin sc) then (None, (self, Fin sc, Some hmm_model))
                  else (None, st))))"

definition cv_try :: "'m engine \<Rightarrow> int \<Rightarrow> 'm cv_state \<Rightarrow> exn option \<times> 'm cv_state" where
  "cv_try eng num_states st =
     (if length (sequences (fst st)) > 2 then cv_split_branch eng num_states st
      else cv_nosplit_branch eng num_states st)"

text \<open>
  The body of the loop over the candidates, the \<^verbatim>\<open>try\<close> statement: the handler
  \<^verbatim>\<open>except: pass\<close> ends the iteration with the state as the exception left it.
\<close>

definition cv_body :: "'m engine \<Rightarrow> 'm cv_state \<Rightarrow> int \<Rightarrow> exn + 'm cv_state" where
  "cv_body eng st num_states =
     (case cv_try eng num_states st of (Some e, st') \<Rightarrow> Inr st' | (None, st') \<Rightarrow> Inr st')"

definition select_cv :: "'m engine \<Rightarrow> selector \<Rightarrow> exn + 'm option \<times> selector" where
  "select_cv eng self =
     (case for_loop (cv_body eng) (self, NegInf, None)
             (py_range (min_n_components self) (max_n_components self)) of
        Inl e \<Rightarrow> Inl e
      | Inr (self', best_score, best_model) \<Rightarrow> Inr (best_model, self'))"

subsection \<open>The method \<open>select\<close> of the five classes\<close>

text \<open>
  A call of \<^verbatim>\<open>select()\<close> raises (\<open>Inl\<close>) or returns a model or \<^verbatim>\<open>None\<close>, and leaves
  the instance in a state (\<open>Inr\<close> of the two). The base class raises
  \<^verbatim>\<open>NotImplementedError\<close>; only \<^verbatim>\<open>SelectorCV\<close> assigns fields of the instance.
\<close>

datatype variant = Base | Constant | BIC | DIC | CV

fun select :: "variant \<Rightarrow> 'm engine \<Rightarrow> selector \<Rightarrow> exn + 'm option \<times> selector" where
  "select Base eng self = Inl NotImplementedError"
| "select Constant eng self =
     (case select_constant eng self of Inl e \<Rightarrow> Inl e | Inr model \<Rightarrow> Inr (model, self))"
| "select BIC eng self =
     (case select_bic eng self of Inl e \<Rightarrow> Inl e | Inr model \<Rightarrow> Inr (model, self))"
| "select DIC eng self =
     (case select_dic eng self of Inl e \<Rightarrow> Inl e | Inr model \<Rightarrow> Inr (model, self))"
| "select CV eng self = select_cv eng self"

section \<open>Recognizer\<close>

text \<open>The local function of \<^verbatim>\<open>recognize\<close>: a failed score is minus infinity.\<close>

definition compute_log_likelihood :: "'m engine \<Rightarrow> 'm \<Rightarrow> xlengths \<Rightarrow> pyfloat" where
  "compute_log_likelihood eng model xl =
     (case score eng model xl of Inl e \<Rightarrow> NegInf | Inr s \<Rightarrow> Fin s)"

text \<open>
  \<^verbatim>\<open>max(iterable, key=f)\<close> of Python: the first item is the maximum so far, a later
  item replaces it when its key is greater, and the empty iterable raises
  \<^verbatim>\<open>ValueError\<close>. The key here is \<^verbatim>\<open>dict.get\<close>, which gives \<^verbatim>\<open>None\<close> for an absent key;
  comparing \<^verbatim>\<open>None\<close> raises \<^verbatim>\<open>TypeError\<close>.
\<close>

fun max_loop :: "('a \<Rightarrow> pyfloat option) \<Rightarrow> 'a \<Rightarrow> 'a list \<Rightarrow> exn + 'a" where
  "max_loop key maxitem [] = Inr maxitem"
| "max_loop key maxitem (item # rest) =
     (case (key item, key maxitem) of
        (Some v, Some maxval) \<Rightarrow> max_loop key (if fl_less maxval v then item else maxitem) rest
      | _ \<Rightarrow> Inl TypeError)"

definition py_max_key :: "('a \<Rightarrow> pyfloat option) \<Rightarrow> 'a list \<Rightarrow> exn + 'a" where
  "py_max_key key items =
     (case items of [] \<Rightarrow> Inl ValueError | item # rest \<Rightarrow> max_loop key item rest)"

text \<open>
  Modelled from the spec: the class \<^verbatim>\<open>SinglesData\<close> of \<^verbatim>\<open>asl_data\<close> is not among the
  sources. By the spec the test set is an indexed collection of items, each retrievable
  by its index as a flattened representation, with a query for their number. It is a
  list here; an index out of range raises.
\<close>

definition get_item_Xlengths :: "xlengths list \<Rightarrow> nat \<Rightarrow> exn + xlengths" where
  "get_item_Xlengths test_set idx =
     (if idx < length test_set then Inr (test_set ! idx) else Inl KeyError)"

text \<open>
  The dictionary comprehension of \<^verbatim>\<open>recognize\<close> gives the score record of an item
  in the iteration order of \<open>models\<close>, an association list.
\<close>

type_synonym score_record = "(word \<times> pyfloat) list"

definition log_likelihood_of :: "'m engine \<Rightarrow> (word \<times> 'm) list \<Rightarrow> xlengths \<Rightarrow> score_record"
  where
  "log_likelihood_of eng models xl =
     map (\<lambda>(w, model). (w, compute_log_likelihood eng model xl)) models"

text \<open>The loop of \<^verbatim>\<open>recognize\<close> over the indices of the test set.\<close>

fun recognize_loop ::
  "'m engine \<Rightarrow> (word \<times> 'm) list \<Rightarrow> xlengths list \<Rightarrow> nat list
   \<Rightarrow> score_record list \<times> word list \<Rightarrow> exn + score_record list \<times> word list" where
  "recognize_loop eng models test_set [] out = Inr out"
| "recognize_loop eng models test_set (idx # rest) (probabilities, guesses) =
     (case get_item_Xlengths test_set idx of
        Inl e \<Rightarrow> Inl e
      | Inr xl \<Rightarrow>
          (let log_likelihood = log_likelihood_of eng models xl
           in case py_max_key (map_of log_likelihood) (map fst log_likelihood) of
                Inl e \<Rightarrow> Inl e
              | Inr guess \<Rightarrow>
                  recognize_loop eng models test_set rest
                    (probabilities @ [log_likelihood], guesses @ [guess])))"

definition recognize ::
  "'m engine \<Rightarrow> (word \<times> 'm) list \<Rightarrow> xlengths list \<Rightarrow> exn + score_record list \<times> word list"
  where
  "recognize eng models test_set =
     recognize_loop eng models test_set [0..<length test_set] ([], [])"

section \<open>Notions used in the statements\<close>

text \<open>
  A word \<open>g\<close> is the first maximum of a score record when it is a key of the record, no
  entry of the record is greater than its entry, and every key before it in the
  iteration order has a strictly smaller entry.
\<close>

definition first_max :: "score_record \<Rightarrow> word \<Rightarrow> bool" where
  "first_max record g =
     (\<exists>pre post v. map fst record = pre @ g # post \<and> map_of record g = Some v
        \<and> (\<forall>w \<in> set pre. \<exists>u. map_of record w = Some u \<and> fl_less u v)
        \<and> (\<forall>w u. map_of record w = Some u \<longrightarrow> \<not> fl_less v u))"

text \<open>
  Candidate \<open>k\<close> fits and scores when the fit gives a model \<open>m\<close> and scoring \<open>m\<close> on the
  word's own data gives the log-likelihood \<open>logL\<close>.
\<close>

definition fits_and_scores :: "'m engine \<Rightarrow> selector \<Rightarrow> int \<Rightarrow> 'm \<Rightarrow> real \<Rightarrow> bool" where
  "fits_and_scores eng self k m logL =
     (base_model eng self k = Inr (Some m) \<and> score eng m (X self, lengths self) = Inr logL)"

text \<open>
  The penalized score as the specification writes it: \<open>-2 logL + p ln N\<close> with
  \<open>p = k (2 d + 1)\<close>, for \<open>k\<close> states, feature dimensionality \<open>d\<close> and \<open>N\<close> observation
  vectors.
\<close>

definition bic_spec :: "int \<Rightarrow> nat \<Rightarrow> nat \<Rightarrow> real \<Rightarrow> real" where
  "bic_spec k d N logL = - 2 * logL + real_of_int (k * (2 * int d + 1)) * ln (real N)"

text \<open>The state counts of the configured range, the upper bound excluded.\<close>

definition candidate_range :: "selector \<Rightarrow> int set" where
  "candidate_range self = {k. min_n_components self \<le> k \<and> k < max_n_components self}"

text \<open>
  The discriminative score as the specification writes it: the model's score on the
  word's own data minus the sum of its scores on the other words' data divided by
  \<open>M - 1\<close>, for a vocabulary of \<open>M\<close> words. It is undefined when a score fails or
  \<open>M = 1\<close>.
\<close>

definition dic_spec :: "'m engine \<Rightarrow> selector \<Rightarrow> 'm \<Rightarrow> real option" where
  "dic_spec eng self m =
     (case score eng m (X self, lengths self) of
        Inl e \<Rightarrow> None
      | Inr own \<Rightarrow>
          (case dic_sum eng self m (filter (\<lambda>w. w \<noteq> this_word self) (map fst (words self))) 0 of
             Inl e \<Rightarrow> None
           | Inr others \<Rightarrow>
               if length (words self) = 1 then None
               else Some (own - others / (real (length (words self)) - 1))))"



text \<open>
  The instance without \<open>X\<close> and \<open>lengths\<close>: two instances with the same image differ
  at most in these two fields.
\<close>

definition outside_data :: "selector \<Rightarrow> selector" where
  "outside_data self = self\<lparr>X := NdArray 0 [], lengths := []\<rparr>"

text \<open>Every index of every fold is an index of the collection.\<close>

definition folds_in_range :: "seq list \<Rightarrow> (nat list \<times> nat list) list \<Rightarrow> bool" where
  "folds_in_range sqs folds =
     (\<forall>(train, test) \<in> set folds.
        (\<forall>i \<in> set train. i < length sqs) \<and> (\<forall>i \<in> set test. i < length sqs))"

text \<open>
  A fold's score fails for the candidate \<open>k\<close> when the fit on its training part
  succeeds and scoring the fitted model on its held-out part raises.
\<close>

definition fold_score_fails ::
  "'m engine \<Rightarrow> int \<Rightarrow> seq list \<Rightarrow> int \<Rightarrow> nat list \<times> nat list \<Rightarrow> bool" where
  "fold_score_fails eng seed sqs k fld =
     (case (combine_sequences (fst fld) sqs, combine_sequences (snd fld) sqs) of
        (Inr train_data, Inr test_data) \<Rightarrow>
          (case fit eng k seed train_data of
             Inl e \<Rightarrow> False
           | Inr m \<Rightarrow> (case score eng m test_data of Inl e \<Rightarrow> True | Inr sc \<Rightarrow> False))
      | _ \<Rightarrow> False)"

text \<open>
  The folds up to and including the first one whose score fails, and the last fold that
  the loop over the folds reaches: the first one whose score fails, or else the last
  fold.
\<close>

fun folds_until_failure ::
  "'m engine \<Rightarrow> int \<Rightarrow> seq list \<Rightarrow> int \<Rightarrow> (nat list \<times> nat list) list
   \<Rightarrow> (nat list \<times> nat list) list" where
  "folds_until_failure eng seed sqs k [] = []"
| "folds_until_failure eng seed sqs k (fld # rest) =
     (if fold_score_fails eng seed sqs k fld then [fld]
      else fld # folds_until_failure eng seed sqs k rest)"

fun last_fold_processed ::
  "'m engine \<Rightarrow> int \<Rightarrow> seq list \<Rightarrow> int \<Rightarrow> (nat list \<times> nat list) list
   \<Rightarrow> (nat list \<times> nat list) option" where
  "last_fold_processed eng seed sqs k [] = None"
| "last_fold_processed eng seed sqs k [fld] = Some fld"
| "last_fold_processed eng seed sqs k (fld # next_fold # rest) =
     (if fold_score_fails eng seed sqs k fld then Some fld
      else last_fold_processed eng seed sqs k (next_fold # rest))"

text \<open>
  The split path in the specification's words: for each fold, fit on the training part,
  score the held-out part, skip the fold's contribution when the fit or the score fails,
  accumulate the held-out scores and track the running mean over the folds scored so
  far. \<open>spec_split_path\<close> runs it over the three folds; \<open>amended_split_path\<close> runs it over
  the folds up to the first one whose score fails.
\<close>

fun spec_folds ::
  "'m engine \<Rightarrow> int \<Rightarrow> seq list \<Rightarrow> int \<Rightarrow> (nat list \<times> nat list) list \<Rightarrow> real list
   \<Rightarrow> pyfloat \<times> 'm option \<Rightarrow> pyfloat \<times> 'm option" where
  "spec_folds eng seed sqs k [] scores best = best"
| "spec_folds eng seed sqs k (fld # rest) scores best =
     (case (combine_sequences (fst fld) sqs, combine_sequences (snd fld) sqs) of
        (Inr train_data, Inr test_data) \<Rightarrow>
          (case fit eng k seed train_data of
             Inl e \<Rightarrow> spec_folds eng seed sqs k rest scores best
           | Inr m \<Rightarrow>
               (case score eng m test_data of
                  Inl e \<Rightarrow> spec_folds eng seed sqs k rest scores best
                | Inr sc \<Rightarrow>
                    (let running_mean = np_mean (scores @ [sc])
                     in spec_folds eng seed sqs k rest (scores @ [sc])
                          (if fl_less (fst best) running_mean then (running_mean, Some m)
                           else best))))
      | _ \<Rightarrow> best)"

definition spec_split_path ::
  "'m engine \<Rightarrow> selector \<Rightarrow> int \<Rightarrow> pyfloat \<times> 'm option \<Rightarrow> pyfloat \<times> 'm option" where
  "spec_split_path eng self k best =
     (case kfold_split 3 (length (sequences self)) of
        Inl e \<Rightarrow> best
      | Inr folds \<Rightarrow> spec_folds eng (random_state self) (sequences self) k folds [] best)"

definition amended_split_path ::
  "'m engine \<Rightarrow> selector \<Rightarrow> int \<Rightarrow> pyfloat \<times> 'm option \<Rightarrow> pyfloat \<times> 'm option" where
  "amended_split_path eng self k best =
     (case kfold_split 3 (length (sequences self)) of
        Inl e \<Rightarrow> best
      | Inr folds \<Rightarrow>
          spec_folds eng (random_state self) (sequences self) k
            (folds_until_failure eng (random_state self) (sequences self) k folds) [] best)"

text \<open>
  The fallback in the specification's words: fit on the full collection and score the
  full collection.
\<close>

definition spec_nosplit_path ::
  "'m engine \<Rightarrow> selector \<Rightarrow> int \<Rightarrow> pyfloat \<times> 'm option \<Rightarrow> pyfloat \<times> 'm option" where
  "spec_nosplit_path eng self k best =
     (case fit eng k (random_state self) (X self, lengths self) of
        Inl e \<Rightarrow> best
      | Inr m \<Rightarrow>
          (case score eng m (X self, lengths self) of
             Inl e \<Rightarrow> best
           | Inr sc \<Rightarrow> if fl_less (fst best) (Fin sc) then (Fin sc, Some m) else best))"

text \<open>
  The search of the cross-validated selector as specified, and as amended: for every
  candidate the split path when the word has more than two sequences, the fallback
  otherwise.
\<close>

definition cv_as_specified :: "'m engine \<Rightarrow> selector \<Rightarrow> pyfloat \<times> 'm option" where
  "cv_as_specified eng self =
     foldl (\<lambda>best k. if 2 < length (sequences self) then spec_split_path eng self k best
                      else spec_nosplit_path eng self k best)
       (NegInf, None) (py_range (min_n_components self) (max_n_components self))"

definition cv_amended :: "'m engine \<Rightarrow> selector \<Rightarrow> pyfloat \<times> 'm option" where
  "cv_amended eng self =
     foldl (\<lambda>best k. if 2 < length (sequences self) then amended_split_path eng self k best
                      else spec_nosplit_path eng self k best)
       (NegInf, None) (py_range (min_n_components self) (max_n_components self))"

text \<open>
  The effect of one iteration of each search on its variables, whether the \<^verbatim>\<open>try\<close>
  block ends or raises, and the iterations of the cross-validated search in sequence.
\<close>

definition bic_step ::
  "'m engine \<Rightarrow> selector \<Rightarrow> pyfloat \<times> 'm option \<Rightarrow> int \<Rightarrow> pyfloat \<times> 'm option" where
  "bic_step eng self best k =
     (case bic_try eng self best k of Inl e \<Rightarrow> best | Inr best' \<Rightarrow> best')"

definition dic_step ::
  "'m engine \<Rightarrow> selector \<Rightarrow> int \<Rightarrow> pyfloat \<times> 'm option \<Rightarrow> int \<Rightarrow> pyfloat \<times> 'm option" where
  "dic_step eng self M best k =
     (case dic_try eng self M best k of Inl e \<Rightarrow> best | Inr best' \<Rightarrow> best')"

definition cv_step :: "'m engine \<Rightarrow> 'm cv_state \<Rightarrow> int \<Rightarrow> 'm cv_state" where
  "cv_step eng st k = snd (cv_try eng k st)"

definition cv_loop :: "'m engine \<Rightarrow> selector \<Rightarrow> 'm cv_state" where
  "cv_loop eng self =
     foldl (cv_step eng) (self, NegInf, None)
       (py_range (min_n_components self) (max_n_components self))"




section \<open>Example inputs\<close>

text \<open>
  A small engine on which the theorems are instantiated: a model is its number of
  states, fitting fails below two states and on data without rows, scoring fails for a
  model without states and on data without rows, and the log-likelihood of a model on
  data is the product of its number of states and the number of rows.
\<close>

definition toy_engine :: "int engine" where
  "toy_engine =
     \<lparr>fit = (\<lambda>k seed xl. if k \<le> 1 \<or> rows (fst xl) = [] then Inl FitFailure else Inr k),
      score = (\<lambda>m xl. if m \<le> 0 \<or> rows (fst xl) = [] then Inl ScoreFailure
                       else Inr (real_of_int m * real (length (rows (fst xl)))))\<rparr>"

definition item_one :: xlengths where
  "item_one = (NdArray 1 [[0]], [1])"

definition item_two :: xlengths where
  "item_two = (NdArray 1 [[0], [1]], [2])"

text \<open>An engine that fits every candidate of two or more states and never scores.\<close>

definition mute_engine :: "int engine" where
  "mute_engine =
     \<lparr>fit = (\<lambda>k seed xl. if k \<le> 1 then Inl FitFailure else Inr k),
      score = (\<lambda>m xl. Inl ScoreFailure)\<rparr>"

text \<open>
  The selector of the word \<open>A\<close> in the vocabulary \<open>A\<close>, \<open>B\<close>, with the candidate state
  counts 2 and 3.
\<close>

definition selector_a :: selector where
  "selector_a =
     \<lparr>words = [(''A'', [[[0]]]), (''B'', [[[0], [1]]])],
      hwords = [(''A'', item_one), (''B'', item_two)],
      sequences = [[[0]]], X = fst item_one, lengths = snd item_one, this_word = ''A'',
      n_constant = 3, min_n_components = 2, max_n_components = 4, random_state = 14,
      verbose = False\<rparr>"


text \<open>
  An engine that fits a model only with at least as many rows as states, and scores a
  model only on data with at least as many rows as the model has states.
\<close>

definition strict_engine :: "int engine" where
  "strict_engine =
     \<lparr>fit = (\<lambda>k seed xl. if k \<le> 1 \<or> int (length (rows (fst xl))) < k then Inl FitFailure
                          else Inr k),
      score = (\<lambda>m xl. if int (length (rows (fst xl))) < m then Inl ScoreFailure
                       else Inr (real_of_int m * real (length (rows (fst xl)))))\<rparr>"

text \<open>The selector of a word with three sequences, of one, two and three observations.\<close>

definition selector_c :: selector where
  "selector_c =
     \<lparr>words = [(''A'', [[[0]], [[1], [2]], [[3], [4], [5]]]), (''B'', [[[0], [1]]])],
      hwords = [(''A'', (NdArray 1 [[0], [1], [2], [3], [4], [5]], [1, 2, 3])), (''B'', item_two)],
      sequences = [[[0]], [[1], [2]], [[3], [4], [5]]],
      X = NdArray 1 [[0], [1], [2], [3], [4], [5]], lengths = [1, 2, 3], this_word = ''A'',
      n_constant = 3, min_n_components = 2, max_n_components = 4, random_state = 14,
      verbose = False\<rparr>"

text \<open>The selector of the only word of a vocabulary of one word.\<close>

definition selector_solo :: selector where
  "selector_solo =
     \<lparr>words = [(''A'', [[[0]]])], hwords = [(''A'', item_one)],
      sequences = [[[0]]], X = fst item_one, lengths = snd item_one, this_word = ''A'',
      n_constant = 3, min_n_components = 2, max_n_components = 4, random_state = 14,
      verbose = False\<rparr>"


section \<open>The order of the floats\<close>

lemma fl_less_irrefl: "\<not> fl_less a a"
  by (cases a) auto

lemma fl_less_trans: "fl_less a b \<Longrightarrow> fl_less b c \<Longrightarrow> fl_less a c"
  by (cases a; cases b; cases c) auto

lemma fl_less_asym: "fl_less a b \<Longrightarrow> \<not> fl_less b a"
  by (cases a; cases b) auto

lemma fl_less_total: "a \<noteq> NaN \<Longrightarrow> b \<noteq> NaN \<Longrightarrow> \<not> fl_less a b \<Longrightarrow> fl_less a c \<Longrightarrow> fl_less b c"
  by (cases a; cases b; cases c) auto

section \<open>Loops and handlers\<close>

text \<open>
  A loop whose body always ends returns, with the state that the iterations give in
  sequence; a loop whose body raises at the first item raises.
\<close>

lemma for_loop_returns:
  assumes "\<And>st item. body st item = Inr (step st item)"
  shows "for_loop body st items = Inr (foldl step st items)"
  by (induction items arbitrary: st) (simp_all add: assms)

lemma for_loop_raises: "body st item = Inl e \<Longrightarrow> for_loop body st (item # rest) = Inl e"
  by simp

lemma base_model_returns:
  "base_model eng self k =
     Inr (case fit eng k (random_state self) (X self, lengths self) of
            Inl e \<Rightarrow> None | Inr m \<Rightarrow> Some m)"
  by (simp add: base_model_def split: sum.splits)

lemma bic_body_returns: "bic_body eng self best k = Inr (bic_step eng self best k)"
  by (simp add: bic_body_def bic_step_def split: sum.splits)

lemma dic_body_returns: "dic_body eng self M best k = Inr (dic_step eng self M best k)"
  by (simp add: dic_body_def dic_step_def split: sum.splits)

lemma cv_body_returns: "cv_body eng st k = Inr (cv_step eng st k)"
  by (simp add: cv_body_def cv_step_def split: prod.splits option.splits)

lemma select_bic_foldl:
  "select_bic eng self =
     Inr (snd (foldl (bic_step eng self) (PosInf, None)
                 (py_range (min_n_components self) (max_n_components self))))"
  by (simp add: select_bic_def for_loop_returns [of "bic_body eng self", OF bic_body_returns]
      split: prod.splits)

lemma select_dic_foldl:
  "select_dic eng self =
     Inr (snd (foldl (dic_step eng self (int (length (words self)))) (NegInf, None)
                 (py_range (min_n_components self) (max_n_components self))))"
  by (simp add: select_dic_def
      for_loop_returns [of "dic_body eng self (int (length (words self)))", OF dic_body_returns]
      split: prod.splits)

lemma select_cv_loop:
  "select_cv eng self = Inr (snd (snd (cv_loop eng self)), fst (cv_loop eng self))"
  by (simp add: select_cv_def cv_loop_def
      for_loop_returns [of "cv_body eng", OF cv_body_returns] split: prod.splits)

section \<open>The recognizer\<close>

text \<open>
  Python's \<open>max\<close> with a key returns the first maximum when every key is defined and
  none is not-a-number.
\<close>

lemma max_loop_first_max:
  assumes "\<forall>x \<in> set (maxitem # items). \<exists>v. key x = Some v \<and> v \<noteq> NaN"
  shows "\<exists>g pre post. max_loop key maxitem items = Inr g \<and> maxitem # items = pre @ g # post
           \<and> (\<forall>x \<in> set pre. fl_less (the (key x)) (the (key g)))
           \<and> (\<forall>x \<in> set post. \<not> fl_less (the (key g)) (the (key x)))"
  using assms
proof (induction items arbitrary: maxitem)
  case Nil
  have "[maxitem] = [] @ maxitem # []" by simp
  then show ?case by (metis empty_iff list.set(1) max_loop.simps(1))
next
  case (Cons item rest)
  obtain v where v: "key item = Some v" "v \<noteq> NaN" using Cons.prems by auto
  obtain mv where mv: "key maxitem = Some mv" "mv \<noteq> NaN" using Cons.prems by auto
  show ?case
  proof (cases "fl_less mv v")
    case True
    have "\<forall>x \<in> set (item # rest). \<exists>v. key x = Some v \<and> v \<noteq> NaN" using Cons.prems by simp
    from Cons.IH [OF this] obtain g pre post where
      g: "max_loop key item rest = Inr g" "item # rest = pre @ g # post"
         "\<forall>x \<in> set pre. fl_less (the (key x)) (the (key g))"
         "\<forall>x \<in> set post. \<not> fl_less (the (key g)) (the (key x))" by blast
    have "fl_less mv (the (key g))"
    proof (cases pre)
      case Nil
      then show ?thesis using g(2) True v by simp
    next
      case (Cons p ps)
      then have "p = item" using g(2) by simp
      then have "fl_less v (the (key g))" using g(3) Cons v by simp
      then show ?thesis using True fl_less_trans by blast
    qed
    then have "\<forall>x \<in> set (maxitem # pre). fl_less (the (key x)) (the (key g))"
      using g(3) mv by simp
    moreover have "maxitem # item # rest = (maxitem # pre) @ g # post" using g(2) by simp
    moreover have "max_loop key maxitem (item # rest) = Inr g" using g(1) True v mv by simp
    ultimately show ?thesis using g(4) by blast
  next
    case False
    have "\<forall>x \<in> set (maxitem # rest). \<exists>v. key x = Some v \<and> v \<noteq> NaN" using Cons.prems by simp
    from Cons.IH [OF this] obtain g pre post where
      g: "max_loop key maxitem rest = Inr g" "maxitem # rest = pre @ g # post"
         "\<forall>x \<in> set pre. fl_less (the (key x)) (the (key g))"
         "\<forall>x \<in> set post. \<not> fl_less (the (key g)) (the (key x))" by blast
    have run: "max_loop key maxitem (item # rest) = Inr g" using g(1) False v mv by simp
    show ?thesis
    proof (cases pre)
      case Nil
      then have eq: "g = maxitem" "post = rest" using g(2) by simp_all
      have "maxitem # item # rest = [] @ g # (item # rest)" using eq by simp
      moreover have "\<forall>x \<in> set (item # rest). \<not> fl_less (the (key g)) (the (key x))"
        using g(4) eq False v mv by simp
      ultimately show ?thesis using run by (metis empty_iff list.set(1))
    next
      case (Cons p ps)
      then have p: "p = maxitem" "rest = ps @ g # post" using g(2) by simp_all
      have "fl_less mv (the (key g))" using g(3) Cons p mv by simp
      then have "fl_less v (the (key g))" using False v mv fl_less_total by blast
      then have "\<forall>x \<in> set (maxitem # item # ps). fl_less (the (key x)) (the (key g))"
        using g(3) Cons p v by simp
      moreover have "maxitem # item # rest = (maxitem # item # ps) @ g # post" using p by simp
      ultimately show ?thesis using run g(4) by blast
    qed
  qed
qed

lemma log_likelihood_not_nan:
  assumes "map_of (log_likelihood_of eng models xl) w = Some v"
  shows "v \<noteq> NaN"
proof -
  have "(w, v) \<in> set (log_likelihood_of eng models xl)" using assms by (rule map_of_SomeD)
  then show ?thesis
    by (auto simp: log_likelihood_of_def compute_log_likelihood_def split: sum.splits)
qed

lemma log_likelihood_keys:
  assumes "w \<in> set (map fst (log_likelihood_of eng models xl))"
  shows "\<exists>v. map_of (log_likelihood_of eng models xl) w = Some v \<and> v \<noteq> NaN"
proof -
  from assms obtain v where v: "map_of (log_likelihood_of eng models xl) w = Some v"
    by (metis map_of_eq_None_iff not_Some_eq set_map)
  then have "(w, v) \<in> set (log_likelihood_of eng models xl)" by (rule map_of_SomeD)
  then have "v \<noteq> NaN"
    by (auto simp: log_likelihood_of_def compute_log_likelihood_def split: sum.splits)
  with v show ?thesis by blast
qed

lemma log_likelihood_lookup:
  "map_of (log_likelihood_of eng models xl) w =
     map_option (\<lambda>model. compute_log_likelihood eng model xl) (map_of models w)"
  by (induction models) (auto simp: log_likelihood_of_def)

lemma py_max_key_log_likelihood:
  assumes "models \<noteq> []"
  shows "\<exists>g. py_max_key (map_of (log_likelihood_of eng models xl))
                (map fst (log_likelihood_of eng models xl)) = Inr g
             \<and> first_max (log_likelihood_of eng models xl) g"
proof -
  let ?ll = "log_likelihood_of eng models xl"
  from assms obtain item rest where items: "map fst ?ll = item # rest"
    by (cases models) (auto simp: log_likelihood_of_def)
  have "\<forall>x \<in> set (item # rest). \<exists>v. map_of ?ll x = Some v \<and> v \<noteq> NaN"
    using log_likelihood_keys [of _ eng models xl] items by metis
  from max_loop_first_max [OF this] obtain g pre post where
    g: "max_loop (map_of ?ll) item rest = Inr g" "item # rest = pre @ g # post"
       "\<forall>x \<in> set pre. fl_less (the (map_of ?ll x)) (the (map_of ?ll g))"
       "\<forall>x \<in> set post. \<not> fl_less (the (map_of ?ll g)) (the (map_of ?ll x))" by blast
  have mem: "\<And>x. x \<in> set (map fst ?ll) \<longleftrightarrow> x \<in> set pre \<or> x = g \<or> x \<in> set post"
    using items g(2) by auto
  obtain v where v: "map_of ?ll g = Some v" "v \<noteq> NaN"
    using log_likelihood_keys [of g eng models xl] mem by blast
  have pre: "\<forall>w \<in> set pre. \<exists>u. map_of ?ll w = Some u \<and> fl_less u v"
  proof
    fix w assume w: "w \<in> set pre"
    then obtain u where "map_of ?ll w = Some u"
      using log_likelihood_keys [of w eng models xl] mem by blast
    then show "\<exists>u. map_of ?ll w = Some u \<and> fl_less u v" using g(3) w v by auto
  qed
  have all: "\<forall>w u. map_of ?ll w = Some u \<longrightarrow> \<not> fl_less v u"
  proof (intro allI impI)
    fix w u assume u: "map_of ?ll w = Some u"
    then have "w \<in> set (map fst ?ll)" by (metis map_of_eq_None_iff option.distinct(1) set_map)
    then consider "w \<in> set pre" | "w = g" | "w \<in> set post" using mem by blast
    then show "\<not> fl_less v u"
    proof cases
      case 1
      then have "fl_less u v" using pre u by auto
      then show ?thesis by (rule fl_less_asym)
    next
      case 2
      then show ?thesis using u v fl_less_irrefl by simp
    next
      case 3
      then show ?thesis using g(4) u v by auto
    qed
  qed
  have "py_max_key (map_of ?ll) (map fst ?ll) = Inr g"
    using items g(1) by (simp add: py_max_key_def)
  moreover have "first_max ?ll g"
    unfolding first_max_def using items g(2) v(1) pre all by metis
  ultimately show ?thesis by blast
qed

lemma recognize_loop_returns:
  assumes "models \<noteq> []" and "\<forall>idx \<in> set idxs. idx < length test_set"
  shows "\<exists>gs. recognize_loop eng models test_set idxs (probabilities, guesses) =
                 Inr (probabilities @ map (\<lambda>idx. log_likelihood_of eng models (test_set ! idx)) idxs,
                      guesses @ gs)
              \<and> length gs = length idxs
              \<and> (\<forall>j < length idxs.
                    first_max (log_likelihood_of eng models (test_set ! (idxs ! j))) (gs ! j))"
  using assms(2)
proof (induction idxs arbitrary: probabilities guesses)
  case Nil
  then show ?case by simp
next
  case (Cons idx rest)
  let ?ll = "log_likelihood_of eng models (test_set ! idx)"
  have idx: "get_item_Xlengths test_set idx = Inr (test_set ! idx)"
    using Cons.prems by (simp add: get_item_Xlengths_def)
  obtain g where g: "py_max_key (map_of ?ll) (map fst ?ll) = Inr g" "first_max ?ll g"
    using py_max_key_log_likelihood [OF assms(1)] by blast
  have "\<forall>idx \<in> set rest. idx < length test_set" using Cons.prems by simp
  from Cons.IH [OF this, of "probabilities @ [?ll]" "guesses @ [g]"] obtain gs where
    gs: "recognize_loop eng models test_set rest (probabilities @ [?ll], guesses @ [g]) =
           Inr ((probabilities @ [?ll]) @ map (\<lambda>idx. log_likelihood_of eng models (test_set ! idx)) rest,
                (guesses @ [g]) @ gs)"
        "length gs = length rest"
        "\<forall>j < length rest. first_max (log_likelihood_of eng models (test_set ! (rest ! j))) (gs ! j)"
    by blast
  have "recognize_loop eng models test_set (idx # rest) (probabilities, guesses) =
          Inr (probabilities @ map (\<lambda>idx. log_likelihood_of eng models (test_set ! idx)) (idx # rest),
               guesses @ (g # gs))"
    using idx g(1) gs(1) by simp
  moreover have "length (g # gs) = length (idx # rest)" using gs(2) by simp
  moreover have "\<forall>j < length (idx # rest).
      first_max (log_likelihood_of eng models (test_set ! ((idx # rest) ! j))) ((g # gs) ! j)"
    using g(2) gs(3) by (auto simp: nth_Cons split: nat.splits)
  ultimately show ?case by blast
qed

lemma recognize_returns:
  assumes "models \<noteq> []"
  shows "\<exists>guesses. recognize eng models test_set =
                 Inr (map (log_likelihood_of eng models) test_set, guesses)
              \<and> length guesses = length test_set
              \<and> (\<forall>i < length test_set.
                    first_max (log_likelihood_of eng models (test_set ! i)) (guesses ! i))"
proof -
  have "\<forall>idx \<in> set [0..<length test_set]. idx < length test_set" by simp
  from recognize_loop_returns [OF assms this, of eng "[]" "[]"] obtain gs where
    gs: "recognize_loop eng models test_set [0..<length test_set] ([], []) =
           Inr ([] @ map (\<lambda>idx. log_likelihood_of eng models (test_set ! idx)) [0..<length test_set],
                [] @ gs)"
        "length gs = length [0..<length test_set]"
        "\<forall>j < length [0..<length test_set].
           first_max (log_likelihood_of eng models (test_set ! ([0..<length test_set] ! j))) (gs ! j)"
    by blast
  have "map (\<lambda>idx. log_likelihood_of eng models (test_set ! idx)) [0..<length test_set] =
          map (log_likelihood_of eng models) test_set"
    by (rule nth_equalityI) simp_all
  then show ?thesis using gs by (auto simp: recognize_def)
qed

text \<open>
  Claim C3. When scoring a model of the mapping on a test item fails, the word's entry
  in the item's score record is minus infinity, \<open>recognize\<close> still returns with the
  record and a guess for that item, and the word is the guess for the item only if every
  entry of the item's record is minus infinity.
\<close>

theorem recognize_failed_score:
  assumes "map_of models w = Some model" and "i < length test_set"
    and "score eng model (test_set ! i) = Inl e"
  shows "\<exists>probabilities guesses.
           recognize eng models test_set = Inr (probabilities, guesses)
         \<and> i < length probabilities \<and> i < length guesses
         \<and> map_of (probabilities ! i) w = Some NegInf
         \<and> (guesses ! i = w \<longrightarrow> (\<forall>w' u. map_of (probabilities ! i) w' = Some u \<longrightarrow> u = NegInf))"
proof -
  have ne: "models \<noteq> []" using assms(1) by auto
  from recognize_returns [OF ne, of eng test_set] obtain guesses where
    g: "recognize eng models test_set = Inr (map (log_likelihood_of eng models) test_set, guesses)"
       "length guesses = length test_set"
       "\<forall>i < length test_set. first_max (log_likelihood_of eng models (test_set ! i)) (guesses ! i)"
    by blast
  let ?ll = "log_likelihood_of eng models (test_set ! i)"
  have w: "map_of ?ll w = Some NegInf"
    using assms(1,3) by (simp add: log_likelihood_lookup compute_log_likelihood_def)
  have "\<forall>w' u. map_of ?ll w' = Some u \<longrightarrow> u = NegInf" if "guesses ! i = w"
  proof (intro allI impI)
    fix w' u assume u: "map_of ?ll w' = Some u"
    have "first_max ?ll w" using g(3) assms(2) that by auto
    then have "\<not> fl_less NegInf u" using w u unfolding first_max_def by auto
    moreover have "u \<noteq> NaN" using u by (rule log_likelihood_not_nan)
    ultimately show "u = NegInf" by (cases u) auto
  qed
  then show ?thesis using g(1,2) w assms(2) by auto
qed

theorem recognize_failed_score_witness:
  "map_of [(''A'', 0::int), (''B'', 2)] ''A'' = Some 0 \<and> (0::nat) < length [item_one]
   \<and> score toy_engine 0 ([item_one] ! 0) = Inl ScoreFailure
   \<and> (\<exists>probabilities guesses.
           recognize toy_engine [(''A'', 0), (''B'', 2)] [item_one] = Inr (probabilities, guesses)
         \<and> 0 < length probabilities \<and> 0 < length guesses
         \<and> map_of (probabilities ! 0) ''A'' = Some NegInf
         \<and> (guesses ! 0 = ''A'' \<longrightarrow>
              (\<forall>w' u. map_of (probabilities ! 0) w' = Some u \<longrightarrow> u = NegInf)))"
proof -
  have h1: "map_of [(''A'', 0::int), (''B'', 2)] ''A'' = Some 0" by simp
  have h2: "(0::nat) < length [item_one]" by simp
  have h3: "score toy_engine 0 ([item_one] ! 0) = Inl ScoreFailure"
    by (simp add: toy_engine_def)
  from recognize_failed_score [OF h1 h2 h3] h1 h2 h3 show ?thesis by blast
qed

text \<open>
  Claim C4, amended. When the model mapping is not empty or the test set is empty,
  \<open>recognize\<close> returns two lists as long as the test set; entry \<open>i\<close> of the first is the
  score record of test item \<open>i\<close>, and entry \<open>i\<close> of the second is the first maximum of
  that record in the mapping's iteration order.
\<close>

theorem recognize_outputs:
  assumes "models \<noteq> [] \<or> test_set = []"
  shows "\<exists>probabilities guesses.
           recognize eng models test_set = Inr (probabilities, guesses)
         \<and> length probabilities = length test_set \<and> length guesses = length test_set
         \<and> (\<forall>i < length test_set.
               probabilities ! i = log_likelihood_of eng models (test_set ! i)
             \<and> first_max (probabilities ! i) (guesses ! i))"
proof (cases "models = []")
  case True
  then have "test_set = []" using assms by simp
  then show ?thesis by (simp add: recognize_def)
next
  case False
  from recognize_returns [OF False, of eng test_set] show ?thesis by auto
qed

theorem recognize_outputs_witness:
  "[(''A'', 2::int), (''B'', 3)] \<noteq> []
   \<and> (\<exists>probabilities guesses.
           recognize toy_engine [(''A'', 2), (''B'', 3)] [item_one, item_two] =
             Inr (probabilities, guesses)
         \<and> length probabilities = length [item_one, item_two]
         \<and> length guesses = length [item_one, item_two]
         \<and> (\<forall>i < length [item_one, item_two].
               probabilities ! i =
                 log_likelihood_of toy_engine [(''A'', 2), (''B'', 3)] ([item_one, item_two] ! i)
             \<and> first_max (probabilities ! i) (guesses ! i)))"
  using recognize_outputs [of "[(''A'', 2), (''B'', 3)]" "[item_one, item_two]" toy_engine]
  by simp

text \<open>
  Without the condition the claim fails: with no model and two test items no list is
  returned.
\<close>

theorem recognize_without_models_counterexample:
  "recognize toy_engine [] [item_one, item_two] = Inl ValueError"
  by (simp add: recognize_def get_item_Xlengths_def log_likelihood_of_def py_max_key_def)

text \<open>
  Claim C10. With an empty model mapping and a test set of at least one item,
  \<open>recognize\<close> raises \<^verbatim>\<open>ValueError\<close> (the maximum of an empty score record) and returns
  no lists.
\<close>

theorem recognize_no_models_raises:
  "test_set \<noteq> [] \<Longrightarrow> recognize eng [] test_set = Inl ValueError"
proof -
  assume "test_set \<noteq> []"
  then have "[0..<length test_set] = 0 # [1..<length test_set]"
    by (simp add: upt_conv_Cons)
  moreover have "get_item_Xlengths test_set 0 = Inr (test_set ! 0)"
    using \<open>test_set \<noteq> []\<close> by (simp add: get_item_Xlengths_def)
  ultimately show ?thesis
    by (simp add: recognize_def log_likelihood_of_def py_max_key_def)
qed

theorem recognize_no_models_raises_witness:
  "[item_one] \<noteq> [] \<and> recognize toy_engine [] [item_one] = Inl ValueError"
  using recognize_no_models_raises [of "[item_one]" toy_engine] by simp

section \<open>The selectors without state\<close>

lemma set_py_range: "set (py_range a b) = {k. a \<le> k \<and> k < b}"
  by (auto simp: py_range_def)

lemma bic_score_finite:
  assumes "rows (X self) \<noteq> []"
  shows "bic_score self k logL = Fin (bic_spec k (ncols (X self)) (length (rows (X self))) logL)"
  using assms by (simp add: bic_score_def bic_spec_def np_log_def Let_def mult.commute)

lemma bic_step_cases:
  "bic_step eng self best k =
     (case fit eng k (random_state self) (X self, lengths self) of
        Inl e \<Rightarrow> best
      | Inr m \<Rightarrow>
          (case score eng m (X self, lengths self) of
             Inl e \<Rightarrow> best
           | Inr logL \<Rightarrow>
               if fl_less (bic_score self k logL) (fst best) then (bic_score self k logL, Some m)
               else best))"
  by (simp add: bic_step_def bic_try_def base_model_returns Let_def split: sum.splits)

lemma fits_and_scores_fit:
  "fits_and_scores eng self k m logL \<longleftrightarrow>
     fit eng k (random_state self) (X self, lengths self) = Inr m
     \<and> score eng m (X self, lengths self) = Inr logL"
  by (auto simp: fits_and_scores_def base_model_returns split: sum.splits)

lemma bic_step_alt:
  "(bic_step eng self best k = best
      \<and> (\<forall>m logL. fits_and_scores eng self k m logL
             \<longrightarrow> \<not> fl_less (bic_score self k logL) (fst best)))
   \<or> (\<exists>m logL. fits_and_scores eng self k m logL
         \<and> bic_step eng self best k = (bic_score self k logL, Some m)
         \<and> fl_less (bic_score self k logL) (fst best))"
proof (cases "fit eng k (random_state self) (X self, lengths self)")
  case (Inl e)
  then show ?thesis by (simp add: bic_step_cases fits_and_scores_fit)
next
  case (Inr m)
  show ?thesis
  proof (cases "score eng m (X self, lengths self)")
    case (Inl e)
    then show ?thesis using Inr by (simp add: bic_step_cases fits_and_scores_fit)
  next
    case sc: (Inr logL)
    then show ?thesis using Inr by (simp add: bic_step_cases fits_and_scores_fit)
  qed
qed

lemma bic_fold_min:
  "(foldl (bic_step eng self) best ks = best
      \<and> (\<forall>k \<in> set ks. \<forall>m logL. fits_and_scores eng self k m logL
             \<longrightarrow> \<not> fl_less (bic_score self k logL) (fst best)))
   \<or> (\<exists>k \<in> set ks. \<exists>m logL. fits_and_scores eng self k m logL
         \<and> foldl (bic_step eng self) best ks = (bic_score self k logL, Some m)
         \<and> fl_less (bic_score self k logL) (fst best)
         \<and> (\<forall>k' \<in> set ks. \<forall>m' logL'. fits_and_scores eng self k' m' logL'
               \<longrightarrow> \<not> fl_less (bic_score self k' logL') (bic_score self k logL)))"
  (is "?P best ks")
proof (induction ks arbitrary: best)
  case Nil
  then show ?case by simp
next
  case (Cons k ks)
  let ?best1 = "bic_step eng self best k"
  have fold: "foldl (bic_step eng self) best (k # ks) = foldl (bic_step eng self) ?best1 ks"
    by simp
  consider (skip) "?best1 = best"
      "\<forall>m logL. fits_and_scores eng self k m logL \<longrightarrow> \<not> fl_less (bic_score self k logL) (fst best)"
    | (take) m logL where "fits_and_scores eng self k m logL"
      "?best1 = (bic_score self k logL, Some m)" "fl_less (bic_score self k logL) (fst best)"
    using bic_step_alt [of eng self best k] by blast
  then show ?case
  proof cases
    case skip
    from Cons.IH [of best] show ?thesis
    proof
      assume a: "foldl (bic_step eng self) best ks = best
        \<and> (\<forall>k \<in> set ks. \<forall>m logL. fits_and_scores eng self k m logL
               \<longrightarrow> \<not> fl_less (bic_score self k logL) (fst best))"
      then show ?thesis using skip fold by auto
    next
      assume "\<exists>k \<in> set ks. \<exists>m logL. fits_and_scores eng self k m logL
         \<and> foldl (bic_step eng self) best ks = (bic_score self k logL, Some m)
         \<and> fl_less (bic_score self k logL) (fst best)
         \<and> (\<forall>k' \<in> set ks. \<forall>m' logL'. fits_and_scores eng self k' m' logL'
               \<longrightarrow> \<not> fl_less (bic_score self k' logL') (bic_score self k logL))"
      then obtain j m logL where j: "j \<in> set ks" "fits_and_scores eng self j m logL"
        "foldl (bic_step eng self) best ks = (bic_score self j logL, Some m)"
        "fl_less (bic_score self j logL) (fst best)"
        "\<forall>k' \<in> set ks. \<forall>m' logL'. fits_and_scores eng self k' m' logL'
               \<longrightarrow> \<not> fl_less (bic_score self k' logL') (bic_score self j logL)" by blast
      have "\<forall>m' logL'. fits_and_scores eng self k m' logL'
               \<longrightarrow> \<not> fl_less (bic_score self k logL') (bic_score self j logL)"
        using skip(2) j(4) fl_less_trans by blast
      then have "\<forall>k' \<in> set (k # ks). \<forall>m' logL'. fits_and_scores eng self k' m' logL'
               \<longrightarrow> \<not> fl_less (bic_score self k' logL') (bic_score self j logL)"
        using j(5) by simp
      moreover have "foldl (bic_step eng self) best (k # ks) = (bic_score self j logL, Some m)"
        using fold skip(1) j(3) by simp
      moreover have "j \<in> set (k # ks)" using j(1) by simp
      ultimately show ?thesis using j(2,4) by blast
    qed
  next
    case take
    have uniq: "\<forall>m' logL'. fits_and_scores eng self k m' logL' \<longrightarrow> m' = m \<and> logL' = logL"
      using take(1) by (auto simp: fits_and_scores_fit)
    from Cons.IH [of ?best1] show ?thesis
    proof
      assume a: "foldl (bic_step eng self) ?best1 ks = ?best1
        \<and> (\<forall>k \<in> set ks. \<forall>m logL. fits_and_scores eng self k m logL
               \<longrightarrow> \<not> fl_less (bic_score self k logL) (fst ?best1))"
      have "\<forall>k' \<in> set (k # ks). \<forall>m' logL'. fits_and_scores eng self k' m' logL'
               \<longrightarrow> \<not> fl_less (bic_score self k' logL') (bic_score self k logL)"
        using a take(2) uniq fl_less_irrefl by auto
      moreover have "foldl (bic_step eng self) best (k # ks) = (bic_score self k logL, Some m)"
        using fold a take(2) by simp
      moreover have "k \<in> set (k # ks)" by simp
      ultimately show ?thesis using take(1,3) by blast
    next
      assume "\<exists>j \<in> set ks. \<exists>m logL. fits_and_scores eng self j m logL
         \<and> foldl (bic_step eng self) ?best1 ks = (bic_score self j logL, Some m)
         \<and> fl_less (bic_score self j logL) (fst ?best1)
         \<and> (\<forall>k' \<in> set ks. \<forall>m' logL'. fits_and_scores eng self k' m' logL'
               \<longrightarrow> \<not> fl_less (bic_score self k' logL') (bic_score self j logL))"
      then obtain j mj lj where j: "j \<in> set ks" "fits_and_scores eng self j mj lj"
        "foldl (bic_step eng self) ?best1 ks = (bic_score self j lj, Some mj)"
        "fl_less (bic_score self j lj) (fst ?best1)"
        "\<forall>k' \<in> set ks. \<forall>m' logL'. fits_and_scores eng self k' m' logL'
               \<longrightarrow> \<not> fl_less (bic_score self k' logL') (bic_score self j lj)" by blast
      have lt: "fl_less (bic_score self j lj) (bic_score self k logL)" using j(4) take(2) by simp
      then have "fl_less (bic_score self j lj) (fst best)" using take(3) fl_less_trans by blast
      moreover have "\<forall>k' \<in> set (k # ks). \<forall>m' logL'. fits_and_scores eng self k' m' logL'
               \<longrightarrow> \<not> fl_less (bic_score self k' logL') (bic_score self j lj)"
        using j(5) uniq lt fl_less_asym by auto
      moreover have "foldl (bic_step eng self) best (k # ks) = (bic_score self j lj, Some mj)"
        using fold j(3) by simp
      moreover have "j \<in> set (k # ks)" using j(1) by simp
      ultimately show ?thesis using j(2) by blast
    qed
  qed
qed

lemma dic_step_singleton: "dic_step eng self 1 best k = best"
  by (simp add: dic_step_def dic_try_def base_model_returns Let_def split: option.splits sum.splits)

lemma foldl_id: "(\<And>s x. f s x = s) \<Longrightarrow> foldl f s xs = s"
  by (induction xs) simp_all

text \<open>
  Claim C2, amended. For a word with at least one observation vector,
  \<open>SelectorBIC.select\<close> returns \<^verbatim>\<open>None\<close> exactly when no candidate of the range both
  fits and scores on the word's own data; otherwise it returns the fitted model of a
  candidate that fits and scores and whose \<open>-2 logL + p ln N\<close> is minimal among the
  candidates of the range that fit and score.
\<close>

theorem select_bic_minimum:
  assumes "rows (X self) \<noteq> []"
  shows "(\<exists>model_or_none. select_bic eng self = Inr model_or_none)
       \<and> (select_bic eng self = Inr None \<longleftrightarrow>
            \<not> (\<exists>k \<in> candidate_range self. \<exists>m logL. fits_and_scores eng self k m logL))
       \<and> (\<forall>m. select_bic eng self = Inr (Some m) \<longrightarrow>
            (\<exists>k \<in> candidate_range self. \<exists>logL. fits_and_scores eng self k m logL
               \<and> (\<forall>k' \<in> candidate_range self. \<forall>m' logL'. fits_and_scores eng self k' m' logL'
                     \<longrightarrow> bic_spec k (ncols (X self)) (length (rows (X self))) logL
                         \<le> bic_spec k' (ncols (X self)) (length (rows (X self))) logL')))"
proof -
  let ?ks = "py_range (min_n_components self) (max_n_components self)"
  let ?r = "foldl (bic_step eng self) (PosInf, None) ?ks"
  have ks: "set ?ks = candidate_range self" by (simp add: set_py_range candidate_range_def)
  have fin: "\<And>k logL. bic_score self k logL =
      Fin (bic_spec k (ncols (X self)) (length (rows (X self))) logL)"
    using assms by (rule bic_score_finite)
  from bic_fold_min [of eng self "(PosInf, None)" ?ks]
  consider (none) "?r = (PosInf, None)"
      "\<forall>k \<in> set ?ks. \<forall>m logL. fits_and_scores eng self k m logL
          \<longrightarrow> \<not> fl_less (bic_score self k logL) PosInf"
    | (some) k m logL where "k \<in> set ?ks" "fits_and_scores eng self k m logL"
      "?r = (bic_score self k logL, Some m)"
      "\<forall>k' \<in> set ?ks. \<forall>m' logL'. fits_and_scores eng self k' m' logL'
          \<longrightarrow> \<not> fl_less (bic_score self k' logL') (bic_score self k logL)"
    by auto
  then show ?thesis
  proof cases
    case none
    have "select_bic eng self = Inr None" using none(1) by (simp add: select_bic_foldl)
    moreover have "\<not> (\<exists>k \<in> candidate_range self. \<exists>m logL. fits_and_scores eng self k m logL)"
      using none(2) ks fin by auto
    ultimately show ?thesis by simp
  next
    case some
    have sel: "select_bic eng self = Inr (Some m)" using some(3) by (simp add: select_bic_foldl)
    have "\<forall>k' \<in> candidate_range self. \<forall>m' logL'. fits_and_scores eng self k' m' logL'
            \<longrightarrow> bic_spec k (ncols (X self)) (length (rows (X self))) logL
                \<le> bic_spec k' (ncols (X self)) (length (rows (X self))) logL'"
      using some(4) ks fin by (auto simp: not_less)
    then show ?thesis using sel some(1,2) ks by auto
  qed
qed

theorem select_bic_minimum_witness:
  "rows (X selector_a) \<noteq> []
   \<and> select_bic toy_engine selector_a = Inr (Some 3)
   \<and> (select_bic toy_engine selector_a = Inr None \<longleftrightarrow>
            \<not> (\<exists>k \<in> candidate_range selector_a. \<exists>m logL.
                  fits_and_scores toy_engine selector_a k m logL))
   \<and> (\<exists>k \<in> candidate_range selector_a. \<exists>logL.
          fits_and_scores toy_engine selector_a k 3 logL
        \<and> (\<forall>k' \<in> candidate_range selector_a. \<forall>m' logL'.
              fits_and_scores toy_engine selector_a k' m' logL'
              \<longrightarrow> bic_spec k (ncols (X selector_a)) (length (rows (X selector_a))) logL
                  \<le> bic_spec k' (ncols (X selector_a)) (length (rows (X selector_a))) logL'))"
proof -
  have h: "rows (X selector_a) \<noteq> []" by (simp add: selector_a_def item_one_def)
  have s: "select_bic toy_engine selector_a = Inr (Some 3)"
    by (simp add: select_bic_foldl py_range_def bic_step_cases bic_score_def
        np_log_def toy_engine_def selector_a_def item_one_def)
  from select_bic_minimum [OF h, of toy_engine] h s show ?thesis by blast
qed

text \<open>
  As stated, with "fits" alone, the claim fails: when candidate 2 fits and no score
  succeeds, the result is \<^verbatim>\<open>None\<close>.
\<close>

theorem select_bic_unscored_counterexample:
  "base_model mute_engine selector_a 2 = Inr (Some 2)
   \<and> select_bic mute_engine selector_a = Inr None"
  by (simp add: select_bic_foldl py_range_def bic_step_cases base_model_def mute_engine_def
      selector_a_def)

text \<open>
  Claim C1. The claim asks for the candidate of maximal discriminative score. In the
  vocabulary \<open>A\<close>, \<open>B\<close> candidates 2 and 3 both fit, with the scores \<open>-2\<close> and \<open>-3\<close>;
  \<open>SelectorDIC.select\<close> returns the model of candidate 3, the last one that fits and
  scores, since \<open>best_score\<close> is never assigned.
\<close>

theorem select_dic_returns_last_candidate:
  "select DIC toy_engine selector_a = Inr (Some 3, selector_a)
   \<and> base_model toy_engine selector_a 2 = Inr (Some 2)
   \<and> dic_spec toy_engine selector_a 2 = Some (- 2)
   \<and> base_model toy_engine selector_a 3 = Inr (Some 3)
   \<and> dic_spec toy_engine selector_a 3 = Some (- 3)"
  by (simp add: select_dic_foldl py_range_def dic_step_def dic_try_def base_model_def dic_spec_def
      toy_engine_def selector_a_def item_one_def item_two_def)

text \<open>
  Claim C6. For each of the four selectors \<open>select\<close> returns a model or \<^verbatim>\<open>None\<close> and
  raises nothing, whatever the engine raises: the handler in \<open>base_model\<close> turns an
  exception of the fit into \<^verbatim>\<open>None\<close>, and the handler around each candidate ends the
  iteration, so that the loops run to their end. With a vocabulary of one word the
  division by \<open>M - 1\<close> raises inside the \<^verbatim>\<open>try\<close> block for every candidate and
  \<open>SelectorDIC.select\<close> returns \<^verbatim>\<open>None\<close>.
\<close>

theorem select_never_raises:
  assumes "v \<noteq> Base"
  shows "(\<exists>model_or_none self'. select v eng self = Inr (model_or_none, self'))
       \<and> (length (words self) = 1 \<and> this_word self \<in> set (map fst (words self)) \<longrightarrow>
            select DIC eng self = Inr (None, self))"
proof -
  have "\<exists>model_or_none self'. select v eng self = Inr (model_or_none, self')"
  proof (cases v)
    case Base
    then show ?thesis using assms by simp
  next
    case Constant
    then show ?thesis by (simp add: select_constant_def base_model_returns)
  next
    case BIC
    then show ?thesis by (simp add: select_bic_foldl)
  next
    case DIC
    then show ?thesis by (simp add: select_dic_foldl)
  next
    case CV
    then show ?thesis by (simp add: select_cv_loop)
  qed
  moreover have "select DIC eng self = Inr (None, self)" if "length (words self) = 1"
    using that by (simp add: select_dic_foldl dic_step_singleton foldl_id)
  ultimately show ?thesis by blast
qed

text \<open>
  The handlers are what the theorem rests on. With an engine that never scores, the
  \<^verbatim>\<open>try\<close> block of the first candidate raises, and the loop over the candidates would
  raise with the block as its body; with the \<^verbatim>\<open>try\<close> statement as its body the
  selector returns. The same holds for the division in a vocabulary of one word, and a
  failed fit of the constant selector is returned as \<^verbatim>\<open>None\<close>.
\<close>

theorem select_never_raises_witness:
  "DIC \<noteq> Base
   \<and> dic_try mute_engine selector_a 2 (NegInf, None) 2 = Inl ScoreFailure
   \<and> for_loop (dic_try mute_engine selector_a 2) (NegInf, None) (py_range 2 4) = Inl ScoreFailure
   \<and> select DIC mute_engine selector_a = Inr (None, selector_a)
   \<and> length (words selector_solo) = 1
   \<and> this_word selector_solo \<in> set (map fst (words selector_solo))
   \<and> dic_try toy_engine selector_solo 1 (NegInf, None) 2 = Inl ZeroDivisionError
   \<and> select DIC toy_engine selector_solo = Inr (None, selector_solo)
   \<and> fit toy_engine 1 14 (X selector_solo, lengths selector_solo) = Inl FitFailure
   \<and> select Constant toy_engine (selector_solo\<lparr>n_constant := 1\<rparr>) =
        Inr (None, selector_solo\<lparr>n_constant := 1\<rparr>)"
proof -
  have h: "length (words selector_solo) = 1
      \<and> this_word selector_solo \<in> set (map fst (words selector_solo))"
    by (simp add: selector_solo_def)
  have t1: "dic_try mute_engine selector_a 2 (NegInf, None) 2 = Inl ScoreFailure"
    by (simp add: dic_try_def base_model_def mute_engine_def selector_a_def)
  have l1: "for_loop (dic_try mute_engine selector_a 2) (NegInf, None) (py_range 2 4) =
      Inl ScoreFailure"
    using t1 by (simp add: py_range_def)
  have t2: "dic_try toy_engine selector_solo 1 (NegInf, None) 2 = Inl ZeroDivisionError"
    by (simp add: dic_try_def base_model_def toy_engine_def selector_solo_def item_one_def)
  have s1: "select DIC mute_engine selector_a = Inr (None, selector_a)"
    by (simp add: select_dic_foldl py_range_def dic_step_def dic_try_def base_model_def
        mute_engine_def selector_a_def)
  have f: "fit toy_engine 1 14 (X selector_solo, lengths selector_solo) = Inl FitFailure"
    by (simp add: toy_engine_def)
  have c: "select Constant toy_engine (selector_solo\<lparr>n_constant := 1\<rparr>) =
      Inr (None, selector_solo\<lparr>n_constant := 1\<rparr>)"
    by (simp add: select_constant_def base_model_def toy_engine_def)
  from select_never_raises [of DIC toy_engine selector_solo] h t1 l1 t2 s1 f c
  show ?thesis by simp
qed






section \<open>The cross-validated selector\<close>

lemma outside_data_fields:
  "outside_data s = outside_data t \<Longrightarrow>
     words s = words t \<and> hwords s = hwords t \<and> sequences s = sequences t
   \<and> this_word s = this_word t \<and> n_constant s = n_constant t
   \<and> min_n_components s = min_n_components t \<and> max_n_components s = max_n_components t
   \<and> random_state s = random_state t \<and> verbose s = verbose t"
  by (cases s, cases t) (simp add: outside_data_def)

lemma outside_data_update [simp]: "outside_data (s\<lparr>X := a, lengths := b\<rparr>) = outside_data s"
  by (simp add: outside_data_def)

lemma outside_data_eqD:
  "outside_data s = outside_data t \<Longrightarrow> s\<lparr>X := a, lengths := b\<rparr> = t\<lparr>X := a, lengths := b\<rparr>"
  by (cases s, cases t) (simp add: outside_data_def)

lemma sum_kfold_sizes: "sum_list (kfold_sizes 3 n) = n"
proof -
  have "[0..<3] = [0, 1, 2]" by (simp add: upt_rec)
  then have "sum_list (kfold_sizes 3 n) =
      3 * (n div 3) + ((if 0 < n mod 3 then 1 else 0) + (if 1 < n mod 3 then 1 else 0)
        + (if 2 < n mod 3 then 1 else 0))"
    by (simp add: kfold_sizes_def)
  also have "\<dots> = n" by (cases "n mod 3 = 0"; cases "n mod 3 = 1") (auto, presburger+)
  finally show ?thesis .
qed

lemma kfold_from_props:
  assumes "\<forall>sz \<in> set sizes. 0 < sz" and "current + sum_list sizes \<le> n"
  shows "\<forall>(train, test) \<in> set (kfold_from n current sizes).
           (\<forall>i \<in> set train. i < n) \<and> (\<forall>i \<in> set test. i < n) \<and> length train < n"
  using assms
proof (induction sizes arbitrary: current)
  case Nil
  then show ?case by simp
next
  case (Cons sz rest)
  have sz: "0 < sz" "current + sz \<le> n" using Cons.prems by auto
  have "current \<in> set [0..<n]" using sz by simp
  moreover have "\<not> (\<lambda>i. \<not> (current \<le> i \<and> i < current + sz)) current" using sz by simp
  ultimately have "length (filter (\<lambda>i. \<not> (current \<le> i \<and> i < current + sz)) [0..<n])
      < length [0..<n]"
    by (rule length_filter_less)
  then have short: "length (filter (\<lambda>i. \<not> (current \<le> i \<and> i < current + sz)) [0..<n]) < n"
    by simp
  have "\<forall>sz \<in> set rest. 0 < sz" "(current + sz) + sum_list rest \<le> n"
    using Cons.prems by auto
  from Cons.IH [OF this] show ?case using sz short by auto
qed

lemma length_kfold_from: "length (kfold_from n current sizes) = length sizes"
  by (induction sizes arbitrary: current) simp_all

lemma kfold_split_three:
  assumes "2 < n"
  shows "\<exists>folds. kfold_split 3 n = Inr folds \<and> folds \<noteq> []
           \<and> (\<forall>(train, test) \<in> set folds.
                 (\<forall>i \<in> set train. i < n) \<and> (\<forall>i \<in> set test. i < n) \<and> length train < n)"
proof -
  have pos: "\<forall>sz \<in> set (kfold_sizes 3 n). 0 < sz"
    using assms by (auto simp: kfold_sizes_def)
  have "0 + sum_list (kfold_sizes 3 n) \<le> n" by (simp add: sum_kfold_sizes)
  from kfold_from_props [OF pos this]
  have props: "\<forall>(train, test) \<in> set (kfold_from n 0 (kfold_sizes 3 n)).
      (\<forall>i \<in> set train. i < n) \<and> (\<forall>i \<in> set test. i < n) \<and> length train < n" .
  have "length (kfold_from n 0 (kfold_sizes 3 n)) = 3"
    by (simp add: length_kfold_from kfold_sizes_def)
  then have "kfold_from n 0 (kfold_sizes 3 n) \<noteq> []" by auto
  moreover have "kfold_split 3 n = Inr (kfold_from n 0 (kfold_sizes 3 n))"
    using assms by (simp add: kfold_split_def)
  ultimately show ?thesis using props by blast
qed

lemma combine_in_range:
  "\<forall>i \<in> set idxs. i < length sqs \<Longrightarrow>
     \<exists>x ls. combine_sequences idxs sqs = Inr (x, ls) \<and> length ls = length idxs"
  by (simp add: combine_sequences_def)

lemma combine_lengths:
  "combine_sequences idxs sqs = Inr (x, ls) \<Longrightarrow> length ls = length idxs"
  by (auto simp: combine_sequences_def split: if_splits)

lemma base_model_update [simp]:
  "base_model eng (s\<lparr>X := x, lengths := ls\<rparr>) k =
     Inr (case fit eng k (random_state s) (x, ls) of Inl e \<Rightarrow> None | Inr m \<Rightarrow> Some m)"
  by (simp add: base_model_returns)

lemma cv_folds_outside:
  "outside_data (fst (snd (cv_folds eng k folds scores (s, bs, bm)))) = outside_data s"
proof (induction folds arbitrary: s scores bs bm)
  case Nil
  then show ?case by simp
next
  case (Cons fld rest)
  obtain train test where fld: "fld = (train, test)" by (cases fld)
  show ?case unfolding fld
    by (simp add: Cons.IH Let_def split: sum.splits option.splits prod.splits)
qed

lemma folds_in_range_Cons:
  "folds_in_range sqs ((train, test) # rest) \<longleftrightarrow>
     (\<forall>i \<in> set train. i < length sqs) \<and> (\<forall>i \<in> set test. i < length sqs)
     \<and> folds_in_range sqs rest"
  by (simp add: folds_in_range_def)

lemma cv_folds_spec:
  assumes "folds_in_range (sequences s) folds"
  shows "snd (snd (cv_folds eng k folds scores (s, bs, bm))) =
           spec_folds eng (random_state s) (sequences s) k
             (folds_until_failure eng (random_state s) (sequences s) k folds) scores (bs, bm)"
  using assms
proof (induction folds arbitrary: s scores bs bm)
  case Nil
  then show ?case by simp
next
  case (Cons fld rest)
  obtain train test where fld: "fld = (train, test)" by (cases fld)
  have rng: "\<forall>i \<in> set train. i < length (sequences s)" "\<forall>i \<in> set test. i < length (sequences s)"
    and rest: "folds_in_range (sequences s) rest"
    using Cons.prems by (simp_all add: fld folds_in_range_Cons)
  obtain x ls where tr: "combine_sequences train (sequences s) = Inr (x, ls)"
    using combine_in_range [OF rng(1)] by blast
  obtain tx tls where te: "combine_sequences test (sequences s) = Inr (tx, tls)"
    using combine_in_range [OF rng(2)] by blast
  let ?s' = "s\<lparr>X := x, lengths := ls\<rparr>"
  have rest': "folds_in_range (sequences ?s') rest" using rest by simp
  note IH = Cons.IH [OF rest', simplified]
  show ?case
  proof (cases "fit eng k (random_state s) (x, ls)")
    case (Inl e)
    then show ?thesis using tr te IH by (simp add: fld fold_score_fails_def)
  next
    case (Inr m)
    show ?thesis
    proof (cases "score eng m (tx, tls)")
      case (Inl e)
      then show ?thesis using tr te Inr by (simp add: fld fold_score_fails_def)
    next
      case sc: (Inr sc)
      then show ?thesis using tr te Inr IH by (simp add: fld fold_score_fails_def Let_def)
    qed
  qed
qed

lemma cv_folds_indep:
  assumes "folds \<noteq> []" and "folds_in_range (sequences s) folds"
    and "outside_data s = outside_data t"
  shows "cv_folds eng k folds scores (s, bs, bm) = cv_folds eng k folds scores (t, bs, bm)"
proof -
  obtain train test rest where folds: "folds = (train, test) # rest"
    using assms(1) by (cases folds) auto
  have sq: "sequences t = sequences s" "random_state t = random_state s"
    using outside_data_fields [OF assms(3)] by simp_all
  have rng: "\<forall>i \<in> set train. i < length (sequences s)"
    using assms(2) by (simp add: folds folds_in_range_Cons)
  obtain x ls where tr: "combine_sequences train (sequences s) = Inr (x, ls)"
    using combine_in_range [OF rng] by blast
  have upd: "t\<lparr>X := x, lengths := ls\<rparr> = s\<lparr>X := x, lengths := ls\<rparr>"
    using outside_data_eqD [OF assms(3)] by simp
  show ?thesis unfolding folds using tr sq
    by (simp add: Let_def upd cong: sum.case_cong option.case_cong if_cong)
qed

lemma cv_folds_last:
  assumes "folds_in_range (sequences s) folds"
    and "last_fold_processed eng (random_state s) (sequences s) k folds = Some (train, test)"
  shows "combine_sequences train (sequences s) =
           Inr (X (fst (snd (cv_folds eng k folds scores (s, bs, bm)))),
                lengths (fst (snd (cv_folds eng k folds scores (s, bs, bm)))))"
  using assms
proof (induction folds arbitrary: s scores bs bm)
  case Nil
  then show ?case by simp
next
  case (Cons fld rest)
  obtain tr0 te0 where fld: "fld = (tr0, te0)" by (cases fld)
  have rng: "\<forall>i \<in> set tr0. i < length (sequences s)" "\<forall>i \<in> set te0. i < length (sequences s)"
    and rest: "folds_in_range (sequences s) rest"
    using Cons.prems(1) by (simp_all add: fld folds_in_range_Cons)
  obtain x ls where tr: "combine_sequences tr0 (sequences s) = Inr (x, ls)"
    using combine_in_range [OF rng(1)] by blast
  obtain tx tls where te: "combine_sequences te0 (sequences s) = Inr (tx, tls)"
    using combine_in_range [OF rng(2)] by blast
  let ?s' = "s\<lparr>X := x, lengths := ls\<rparr>"
  show ?case
  proof (cases "rest = [] \<or> fold_score_fails eng (random_state s) (sequences s) k fld")
    case True
    then have here: "train = tr0"
      using Cons.prems(2) by (cases rest) (auto simp: fld)
    have "fst (snd (cv_folds eng k (fld # rest) scores (s, bs, bm))) = ?s'"
      using True
    proof
      assume "rest = []"
      then show ?thesis using tr te
        by (simp add: fld Let_def split: sum.splits option.splits)
    next
      assume "fold_score_fails eng (random_state s) (sequences s) k fld"
      then show ?thesis using tr te
        by (auto simp: fld fold_score_fails_def Let_def split: sum.splits option.splits)
    qed
    then show ?thesis using tr here by simp
  next
    case False
    then obtain nf rest' where r: "rest = nf # rest'" by (cases rest) auto
    have nofail: "\<not> fold_score_fails eng (random_state s) (sequences s) k fld"
      using False by simp
    have last: "last_fold_processed eng (random_state ?s') (sequences ?s') k rest = Some (train, test)"
      using Cons.prems(2) nofail by (simp add: r)
    have rest': "folds_in_range (sequences ?s') rest" using rest by simp
    note IH = Cons.IH [OF rest' last, simplified]
    show ?thesis
    proof (cases "fit eng k (random_state s) (x, ls)")
      case (Inl e)
      then show ?thesis using tr te IH by (simp add: fld)
    next
      case (Inr m)
      then obtain sc where sc: "score eng m (tx, tls) = Inr sc"
        using nofail tr te by (auto simp: fld fold_score_fails_def split: sum.splits)
      show ?thesis using tr te Inr sc IH by (simp add: fld Let_def)
    qed
  qed
qed

lemma last_fold_processed_Some:
  "folds \<noteq> [] \<Longrightarrow> \<exists>fld \<in> set folds. last_fold_processed eng seed sqs k folds = Some fld"
  by (induction eng seed sqs k folds rule: last_fold_processed.induct) auto

lemma folds_until_failure_all:
  "\<forall>fld \<in> set folds. \<not> fold_score_fails eng seed sqs k fld \<Longrightarrow>
     folds_until_failure eng seed sqs k folds = folds"
  by (induction folds) simp_all

lemma kfold_split_selector:
  assumes "2 < length (sequences s)"
  shows "\<exists>folds. kfold_split 3 (length (sequences s)) = Inr folds \<and> folds \<noteq> []
           \<and> folds_in_range (sequences s) folds
           \<and> (\<forall>(train, test) \<in> set folds. length train < length (sequences s))"
  using kfold_split_three [OF assms] unfolding folds_in_range_def by fast

lemma cv_step_split:
  assumes "2 < length (sequences s)"
  shows "snd (cv_step eng (s, best) k) = amended_split_path eng s k best"
    and "outside_data (fst (cv_step eng (s, best) k)) = outside_data s"
proof -
  obtain folds where folds: "kfold_split 3 (length (sequences s)) = Inr folds"
    "folds_in_range (sequences s) folds"
    using kfold_split_selector [OF assms] by blast
  obtain bs bm where best: "best = (bs, bm)" by (cases best)
  have step: "cv_step eng (s, bs, bm) k = snd (cv_folds eng k folds [] (s, bs, bm))"
    using assms folds(1) by (simp add: cv_step_def cv_try_def cv_split_branch_def)
  show "snd (cv_step eng (s, best) k) = amended_split_path eng s k best"
    unfolding best step
    using cv_folds_spec [OF folds(2), of eng k "[]" bs bm] folds(1)
    by (simp add: amended_split_path_def)
  show "outside_data (fst (cv_step eng (s, best) k)) = outside_data s"
    unfolding best step
    using cv_folds_outside [of eng k folds "[]" s bs bm] by simp
qed

lemma cv_step_indep:
  assumes "2 < length (sequences s)" and "outside_data s = outside_data t"
  shows "cv_step eng (s, best) k = cv_step eng (t, best) k"
proof -
  obtain folds where folds: "kfold_split 3 (length (sequences s)) = Inr folds" "folds \<noteq> []"
    "folds_in_range (sequences s) folds"
    using kfold_split_selector [OF assms(1)] by blast
  obtain bs bm where best: "best = (bs, bm)" by (cases best)
  have sq: "sequences t = sequences s" using outside_data_fields [OF assms(2)] by simp
  show ?thesis
    using assms(1) folds(1) sq cv_folds_indep [OF folds(2,3) assms(2), of eng k "[]" bs bm]
    by (simp add: cv_step_def cv_try_def cv_split_branch_def best)
qed

lemma cv_step_nosplit:
  assumes "\<not> 2 < length (sequences s)"
  shows "cv_step eng (s, best) k = (s, spec_nosplit_path eng s k best)"
proof -
  obtain bs bm where best: "best = (bs, bm)" by (cases best)
  show ?thesis using assms
    by (simp add: cv_step_def cv_try_def cv_nosplit_branch_def spec_nosplit_path_def
        base_model_def best split: sum.splits)
qed

lemma amended_split_path_outside:
  assumes "outside_data s = outside_data t"
  shows "amended_split_path eng s k best = amended_split_path eng t k best"
proof -
  have sq: "sequences s = sequences t" and rs: "random_state s = random_state t"
    using outside_data_fields [OF assms] by simp_all
  show ?thesis unfolding amended_split_path_def sq rs ..
qed

lemma cv_fold_split:
  assumes "2 < length (sequences self)" and "outside_data s = outside_data self"
  shows "snd (foldl (cv_step eng) (s, best) ks) =
           foldl (\<lambda>best k. amended_split_path eng self k best) best ks
       \<and> outside_data (fst (foldl (cv_step eng) (s, best) ks)) = outside_data self"
  using assms(2)
proof (induction ks arbitrary: s best)
  case Nil
  then show ?case by simp
next
  case (Cons k ks)
  have len: "2 < length (sequences s)"
    using assms(1) outside_data_fields [OF Cons.prems] by simp
  obtain s1 best1 where st: "cv_step eng (s, best) k = (s1, best1)"
    by (cases "cv_step eng (s, best) k")
  have b1: "best1 = amended_split_path eng self k best"
    using cv_step_split(1) [OF len, of eng best k] amended_split_path_outside [OF Cons.prems]
    by (simp add: st)
  have o1: "outside_data s1 = outside_data self"
    using cv_step_split(2) [OF len, of eng best k] Cons.prems by (simp add: st)
  from Cons.IH [OF o1, of best1] show ?case by (simp add: st b1)
qed

lemma cv_fold_nosplit:
  assumes "\<not> 2 < length (sequences self)"
  shows "foldl (cv_step eng) (self, best) ks =
           (self, foldl (\<lambda>best k. spec_nosplit_path eng self k best) best ks)"
proof (induction ks arbitrary: best)
  case Nil
  then show ?case by simp
next
  case (Cons k ks)
  then show ?case using assms by (simp add: cv_step_nosplit)
qed

lemma cv_loop_amended:
  "snd (cv_loop eng self) = cv_amended eng self"
proof (cases "2 < length (sequences self)")
  case True
  from cv_fold_split [OF True refl, of eng "(NegInf, None)"] True
  show ?thesis by (simp add: cv_loop_def cv_amended_def)
next
  case False
  from cv_fold_nosplit [OF False, of eng "(NegInf, None)"] False
  show ?thesis by (simp add: cv_loop_def cv_amended_def)
qed

lemma cv_loop_outside: "outside_data (fst (cv_loop eng self)) = outside_data self"
proof (cases "2 < length (sequences self)")
  case True
  from cv_fold_split [OF True refl, of eng "(NegInf, None)"]
  show ?thesis by (simp add: cv_loop_def)
next
  case False
  from cv_fold_nosplit [OF False, of eng "(NegInf, None)"]
  show ?thesis by (simp add: cv_loop_def)
qed

lemma cv_loop_again: "cv_loop eng (fst (cv_loop eng self)) = cv_loop eng self"
proof (cases "2 < length (sequences self)")
  case False
  from cv_fold_nosplit [OF False, of eng "(NegInf, None)"]
  show ?thesis by (simp add: cv_loop_def)
next
  case True
  let ?s = "fst (cv_loop eng self)"
  let ?ks = "py_range (min_n_components self) (max_n_components self)"
  have out: "outside_data ?s = outside_data self" by (rule cv_loop_outside)
  have ks: "py_range (min_n_components ?s) (max_n_components ?s) = ?ks"
    using outside_data_fields [OF out] by simp
  have len: "2 < length (sequences ?s)" using True outside_data_fields [OF out] by simp
  show ?thesis
  proof (cases ?ks)
    case Nil
    then show ?thesis by (simp add: cv_loop_def)
  next
    case (Cons k rest)
    have "cv_step eng (?s, NegInf, None) k = cv_step eng (self, NegInf, None) k"
      by (rule cv_step_indep [OF len out])
    then have "foldl (cv_step eng) (?s, NegInf, None) ?ks =
        foldl (cv_step eng) (self, NegInf, None) ?ks"
      by (simp add: Cons)
    then show ?thesis unfolding cv_loop_def [of eng ?s] ks by (simp add: cv_loop_def)
  qed
qed

lemma cv_amended_as_specified:
  assumes "\<forall>k \<in> candidate_range self. \<forall>folds.
             kfold_split 3 (length (sequences self)) = Inr folds \<longrightarrow>
             (\<forall>fld \<in> set folds.
                \<not> fold_score_fails eng (random_state self) (sequences self) k fld)"
  shows "cv_amended eng self = cv_as_specified eng self"
proof -
  have "amended_split_path eng self k best = spec_split_path eng self k best"
    if "k \<in> candidate_range self" for k best
    using assms that
    by (auto simp: amended_split_path_def spec_split_path_def folds_until_failure_all
        split: sum.splits)
  then show ?thesis
    unfolding cv_amended_def cv_as_specified_def
    by (intro foldl_cong refl) (simp add: set_py_range candidate_range_def)
qed

lemma kfold_split_3_3:
  "kfold_split 3 (Suc (Suc (Suc 0))) = Inr [([1, 2], [0]), ([0, 2], [1]), ([0, 1], [2])]"
  by (simp add: kfold_split_def kfold_sizes_def upt_rec)

lemma select_cv_toy:
  "select CV toy_engine selector_c =
     Inr (Some 3, selector_c\<lparr>X := NdArray 1 [[0], [1], [2]], lengths := [1, 2]\<rparr>)"
  by (simp add: select_cv_loop cv_loop_def cv_step_def cv_try_def cv_split_branch_def
      kfold_split_3_3 combine_sequences_def feature_dim_def base_model_def
      py_range_def np_mean_def toy_engine_def selector_c_def Let_def)

lemma cv_loop_last_fold:
  assumes "2 < length (sequences self)" and "min_n_components self < max_n_components self"
  shows "\<exists>folds train test.
           kfold_split 3 (length (sequences self)) = Inr folds
         \<and> last_fold_processed eng (random_state self) (sequences self)
               (max_n_components self - 1) folds = Some (train, test)
         \<and> combine_sequences train (sequences self) =
               Inr (X (fst (cv_loop eng self)), lengths (fst (cv_loop eng self)))
         \<and> length train < length (sequences self)"
proof -
  let ?k = "max_n_components self - 1"
  let ?pre = "[min_n_components self..max_n_components self - 2]"
  have ks: "py_range (min_n_components self) (max_n_components self) = ?pre @ [?k]"
    using assms(2) upto_rec2 [of "min_n_components self" ?k] by (simp add: py_range_def)
  obtain s1 bs bm where st1: "foldl (cv_step eng) (self, NegInf, None) ?pre = (s1, bs, bm)"
    by (cases "foldl (cv_step eng) (self, NegInf, None) ?pre") auto
  have out: "outside_data s1 = outside_data self"
    using cv_fold_split [OF assms(1) refl, of eng "(NegInf, None)" ?pre] by (simp add: st1)
  have sq: "sequences s1 = sequences self" and rs: "random_state s1 = random_state self"
    using outside_data_fields [OF out] by simp_all
  obtain folds where folds: "kfold_split 3 (length (sequences self)) = Inr folds" "folds \<noteq> []"
    "folds_in_range (sequences self) folds"
    "\<forall>(train, test) \<in> set folds. length train < length (sequences self)"
    using kfold_split_selector [OF assms(1)] by blast
  obtain fld where fld: "fld \<in> set folds"
    "last_fold_processed eng (random_state self) (sequences self) ?k folds = Some fld"
    using last_fold_processed_Some [OF folds(2)] by blast
  obtain train test where tt: "fld = (train, test)" by (cases fld)
  have loop: "cv_loop eng self = snd (cv_folds eng ?k folds [] (s1, bs, bm))"
    using assms(1) folds(1) sq
    by (simp add: cv_loop_def ks st1 cv_step_def cv_try_def cv_split_branch_def)
  have "folds_in_range (sequences s1) folds" using folds(3) sq by simp
  moreover have "last_fold_processed eng (random_state s1) (sequences s1) ?k folds =
      Some (train, test)"
    using fld(2) sq rs tt by simp
  ultimately have "combine_sequences train (sequences s1) =
      Inr (X (fst (snd (cv_folds eng ?k folds [] (s1, bs, bm)))),
           lengths (fst (snd (cv_folds eng ?k folds [] (s1, bs, bm)))))"
    by (rule cv_folds_last)
  then have "combine_sequences train (sequences self) =
      Inr (X (fst (cv_loop eng self)), lengths (fst (cv_loop eng self)))"
    by (simp add: loop sq)
  moreover have "length train < length (sequences self)" using folds(4) fld(1) tt by auto
  ultimately show ?thesis using folds(1) fld(2) tt by blast
qed

text \<open>
  Claim C5, amended. \<open>SelectorCV.select\<close> uses, for every candidate, the three-fold
  split path exactly when the word has more than two sequences and the fallback on the
  full collection exactly when it has two or fewer; the fallback leaves the instance as
  it was. In the split path a fold whose fit fails is skipped, and a fold whose score
  fails ends the folds of that candidate: the result is the specified path run over the
  folds up to the first one whose score fails. When no score of a fold fails, it is the
  path as specified.
\<close>

theorem select_cv_paths:
  "(\<exists>self'. select_cv eng self = Inr (snd (cv_amended eng self), self'))
   \<and> (length (sequences self) \<le> 2 \<longrightarrow>
        select_cv eng self = Inr (snd (cv_amended eng self), self))
   \<and> ((\<forall>k \<in> candidate_range self. \<forall>folds.
          kfold_split 3 (length (sequences self)) = Inr folds \<longrightarrow>
          (\<forall>fld \<in> set folds.
             \<not> fold_score_fails eng (random_state self) (sequences self) k fld))
        \<longrightarrow> (\<exists>self'. select_cv eng self = Inr (snd (cv_as_specified eng self), self')))"
proof -
  have a: "select_cv eng self = Inr (snd (cv_amended eng self), fst (cv_loop eng self))"
    using cv_loop_amended [of eng self] by (simp add: select_cv_loop)
  have b: "fst (cv_loop eng self) = self" if "length (sequences self) \<le> 2"
  proof -
    have "\<not> 2 < length (sequences self)" using that by simp
    from cv_fold_nosplit [OF this, of eng "(NegInf, None)"]
    show ?thesis by (simp add: cv_loop_def)
  qed
  show ?thesis using a b cv_amended_as_specified [of self eng] by auto
qed

theorem select_cv_paths_witness:
  "length (sequences selector_a) \<le> 2
   \<and> select_cv toy_engine selector_a = Inr (snd (cv_amended toy_engine selector_a), selector_a)
   \<and> (\<exists>self'. select_cv toy_engine selector_c =
                 Inr (snd (cv_amended toy_engine selector_c), self'))
   \<and> (\<exists>self'. select_cv toy_engine selector_c =
                 Inr (snd (cv_as_specified toy_engine selector_c), self'))"
proof -
  have h1: "length (sequences selector_a) \<le> 2" by (simp add: selector_a_def)
  have h2: "\<forall>k \<in> candidate_range selector_c. \<forall>folds.
      kfold_split 3 (length (sequences selector_c)) = Inr folds \<longrightarrow>
      (\<forall>fld \<in> set folds.
         \<not> fold_score_fails toy_engine (random_state selector_c) (sequences selector_c) k fld)"
    by (auto simp: candidate_range_def selector_c_def kfold_split_3_3 fold_score_fails_def
        combine_sequences_def toy_engine_def)
  from select_cv_paths [of toy_engine selector_a] select_cv_paths [of toy_engine selector_c] h1 h2
  show ?thesis by blast
qed

text \<open>
  As stated the claim fails: with the strict engine the score of the first fold fails for
  both candidates, the code keeps no model, and the path as specified would go on to
  the other folds and keep the model of three states.
\<close>

theorem select_cv_paths_counterexample:
  "select_cv strict_engine selector_c =
     Inr (None, selector_c\<lparr>X := NdArray 1 [[1], [2], [3], [4], [5]], lengths := [2, 3]\<rparr>)
   \<and> snd (cv_as_specified strict_engine selector_c) = Some 3"
  by (simp add: select_cv_loop cv_loop_def cv_step_def cv_try_def cv_split_branch_def
      cv_as_specified_def spec_split_path_def
      kfold_split_3_3 combine_sequences_def feature_dim_def base_model_def
      py_range_def np_mean_def strict_engine_def selector_c_def Let_def)

text \<open>
  Claim C8. A second call of \<open>select\<close> on the instance that a first call has left
  returns the same model and leaves the same instance, for every selector; this
  includes \<open>SelectorCV\<close> after the split path has assigned \<open>X\<close> and \<open>lengths\<close>.
\<close>

theorem select_twice:
  assumes "select v eng self = Inr (r, self')"
  shows "select v eng self' = Inr (r, self')"
proof (cases v)
  case CV
  have "self' = fst (cv_loop eng self)" "r = snd (snd (cv_loop eng self))"
    using assms CV by (simp_all add: select_cv_loop)
  then show ?thesis using CV cv_loop_again [of eng self] by (simp add: select_cv_loop)
qed (use assms in \<open>auto simp: select_constant_def base_model_returns select_bic_foldl
    select_dic_foldl\<close>)

theorem select_twice_witness:
  "select CV toy_engine selector_c =
     Inr (Some 3, selector_c\<lparr>X := NdArray 1 [[0], [1], [2]], lengths := [1, 2]\<rparr>)
   \<and> select CV toy_engine (selector_c\<lparr>X := NdArray 1 [[0], [1], [2]], lengths := [1, 2]\<rparr>) =
     Inr (Some 3, selector_c\<lparr>X := NdArray 1 [[0], [1], [2]], lengths := [1, 2]\<rparr>)"
  using select_twice [OF select_cv_toy] select_cv_toy by simp

text \<open>
  Claim C9. After \<open>SelectorCV.select\<close> on a word with more than two sequences and a
  non-empty candidate range, \<open>X\<close> and \<open>lengths\<close> of the instance are the combined
  training sequences of the last fold reached for the last candidate; they have fewer
  segments than the word has sequences, so they are not the word's full flattened
  representation. No selector changes \<open>words\<close> or \<open>hwords\<close>.
\<close>

theorem select_cv_instance_data:
  "(2 < length (sequences self) \<and> min_n_components self < max_n_components self \<longrightarrow>
      (\<exists>r self' folds train test.
          select CV eng self = Inr (r, self')
        \<and> kfold_split 3 (length (sequences self)) = Inr folds
        \<and> last_fold_processed eng (random_state self) (sequences self)
              (max_n_components self - 1) folds = Some (train, test)
        \<and> combine_sequences train (sequences self) = Inr (X self', lengths self')
        \<and> length (lengths self') < length (sequences self)
        \<and> (\<forall>full. combine_sequences [0..<length (sequences self)] (sequences self) = Inr full
              \<longrightarrow> (X self', lengths self') \<noteq> full)))
   \<and> (\<forall>v r self'. select v eng self = Inr (r, self') \<longrightarrow>
          words self' = words self \<and> hwords self' = hwords self)"
proof (intro conjI impI allI)
  assume a: "2 < length (sequences self) \<and> min_n_components self < max_n_components self"
  let ?s = "fst (cv_loop eng self)"
  have sel: "select CV eng self = Inr (snd (snd (cv_loop eng self)), ?s)"
    by (simp add: select_cv_loop)
  from a cv_loop_last_fold [of self eng] obtain folds train test where
    f: "kfold_split 3 (length (sequences self)) = Inr folds"
       "last_fold_processed eng (random_state self) (sequences self)
          (max_n_components self - 1) folds = Some (train, test)"
       "combine_sequences train (sequences self) = Inr (X ?s, lengths ?s)"
       "length train < length (sequences self)"
    by blast
  have short: "length (lengths ?s) < length (sequences self)"
    using combine_lengths [OF f(3)] f(4) by simp
  have "(X ?s, lengths ?s) \<noteq> full"
    if "combine_sequences [0..<length (sequences self)] (sequences self) = Inr full" for full
  proof -
    obtain x ls where full: "full = (x, ls)" by (cases full)
    have "length ls = length (sequences self)"
      using combine_lengths [of "[0..<length (sequences self)]" "sequences self" x ls] that full
      by simp
    then show ?thesis using short full by auto
  qed
  then show "\<exists>r self' folds train test.
          select CV eng self = Inr (r, self')
        \<and> kfold_split 3 (length (sequences self)) = Inr folds
        \<and> last_fold_processed eng (random_state self) (sequences self)
              (max_n_components self - 1) folds = Some (train, test)
        \<and> combine_sequences train (sequences self) = Inr (X self', lengths self')
        \<and> length (lengths self') < length (sequences self)
        \<and> (\<forall>full. combine_sequences [0..<length (sequences self)] (sequences self) = Inr full
              \<longrightarrow> (X self', lengths self') \<noteq> full)"
    using sel f(1,2,3) short by blast
next
  fix v r self' assume sel: "select v eng self = Inr (r, self')"
  have "outside_data self' = outside_data self"
  proof (cases v)
    case CV
    then have "self' = fst (cv_loop eng self)" using sel by (simp add: select_cv_loop)
    then show ?thesis by (simp add: cv_loop_outside)
  qed (use sel in \<open>auto simp: select_constant_def base_model_returns select_bic_foldl
    select_dic_foldl\<close>)
  then show "words self' = words self" and "hwords self' = hwords self"
    using outside_data_fields [of self' self] by simp_all
qed

theorem select_cv_instance_data_witness:
  "2 < length (sequences selector_c) \<and> min_n_components selector_c < max_n_components selector_c
   \<and> select CV toy_engine selector_c =
        Inr (Some 3, selector_c\<lparr>X := NdArray 1 [[0], [1], [2]], lengths := [1, 2]\<rparr>)
   \<and> (\<exists>r self' folds train test.
          select CV toy_engine selector_c = Inr (r, self')
        \<and> kfold_split 3 (length (sequences selector_c)) = Inr folds
        \<and> last_fold_processed toy_engine (random_state selector_c) (sequences selector_c)
              (max_n_components selector_c - 1) folds = Some (train, test)
        \<and> combine_sequences train (sequences selector_c) = Inr (X self', lengths self')
        \<and> length (lengths self') < length (sequences selector_c))
   \<and> words (selector_c\<lparr>X := NdArray 1 [[0], [1], [2]], lengths := [1, 2]\<rparr>) = words selector_c
   \<and> hwords (selector_c\<lparr>X := NdArray 1 [[0], [1], [2]], lengths := [1, 2]\<rparr>) = hwords selector_c"
proof -
  have h: "2 < length (sequences selector_c) \<and>
      min_n_components selector_c < max_n_components selector_c"
    by (simp add: selector_c_def)
  from select_cv_instance_data [of selector_c toy_engine] h select_cv_toy show ?thesis by blast
qed


















end
